theory Spec2Isabelle
  imports Main "HOL-Library.Multiset"
begin

section \<open>The layout engine of the roadmap graph (utils/layoutHelper.ts)\<close>

text \<open>
  \<open>calculateLayout\<close> takes the visible workflow nodes and an orientation and returns
  positioned nodes, positioned edges and the canvas size. The embedding follows the source
  statement by statement: each \<open>forEach\<close> is a recursion over the list that passes the
  mutated maps along, the bounded \<open>while\<close> of the rank phase is a function with a
  termination proof, and the unbounded \<open>while (true)\<close> of the lane scan is a partial
  function in the option monad, where \<open>None\<close> stands for a scan that never returns.
\<close>

subsection \<open>Data model (types.ts, constants.ts)\<close>

datatype NodeStatus = Active | Completed | Abandoned | Standby

datatype LayoutOrientation = Vertical | Horizontal | Timeline

text \<open>
  The field \<open>id\<close> is called \<open>node_id\<close> here. \<open>date\<close> holds the value of
  \<open>new Date(date).getTime()\<close>, the only way the engine reads the ISO string; dates that
  do not parse (a \<open>NaN\<close> time value) are outside the model.
\<close>

record WorkflowNode =
  node_id :: string
  title :: string
  description :: string
  date :: int
  status :: NodeStatus
  parentIds :: "string list"

text \<open>
  Ranks and lanes are JavaScript numbers that only ever hold integers. Coordinates and canvas
  bounds can in addition be \<open>-Infinity\<close> (\<open>Math.max()\<close> of no arguments) or
  \<open>NaN\<close> (arithmetic on \<open>undefined\<close>), so they get a type of their own.
\<close>

datatype number = Num int | NegInfinity | NaN

text \<open>
  \<open>color\<close> is \<open>None\<close> where the source would read \<open>undefined\<close> out of the palette.
\<close>

record RenderedNode = WorkflowNode +
  x :: number
  y :: number
  lane :: int
  color :: "string option"

record RenderedEdge =
  edge_id :: string
  sourceX :: number
  sourceY :: number
  targetX :: number
  targetY :: number
  edge_color :: "string option"
  edge_status :: NodeStatus

record Layout =
  nodes :: "RenderedNode list"
  edges :: "RenderedEdge list"
  width :: number
  height :: number

definition COLORS :: "string list" where
  "COLORS = [''#3b82f6'', ''#10b981'', ''#8b5cf6'', ''#f59e0b'', ''#ec4899'', ''#06b6d4'',
             ''#f43f5e'']"

definition NODE_WIDTH :: int where "NODE_WIDTH = 180"
definition NODE_HEIGHT :: int where "NODE_HEIGHT = 80"
definition GAP_X :: int where "GAP_X = 50"
definition GAP_Y :: int where "GAP_Y = 120"
definition H_NODE_WIDTH :: int where "H_NODE_WIDTH = 200"
definition H_NODE_HEIGHT :: int where "H_NODE_HEIGHT = 100"
definition H_GAP_X :: int where "H_GAP_X = 250"
definition H_GAP_Y :: int where "H_GAP_Y = 80"

subsection \<open>JavaScript library behaviour the engine relies on\<close>

text \<open>
  \<open>Array.prototype.sort\<close> with a consistent comparator is a stable sort: an element is
  placed in front of the first later element that does not compare below it.
\<close>

fun insert_by :: "('a \<Rightarrow> 'a \<Rightarrow> int) \<Rightarrow> 'a \<Rightarrow> 'a list \<Rightarrow> 'a list" where
  "insert_by cmp a [] = [a]"
| "insert_by cmp a (b # bs) = (if cmp a b \<le> 0 then a # b # bs else b # insert_by cmp a bs)"

definition sort_by :: "('a \<Rightarrow> 'a \<Rightarrow> int) \<Rightarrow> 'a list \<Rightarrow> 'a list" where
  "sort_by cmp as = foldr (insert_by cmp) as []"

text \<open>
  A \<open>Map\<close> whose iteration order matters is a list of entries in insertion order:
  \<open>set\<close> on a present key replaces the value where it stands, on a new key it appends.
\<close>

fun map_set :: "(string \<times> 'v) list \<Rightarrow> string \<Rightarrow> 'v \<Rightarrow> (string \<times> 'v) list" where
  "map_set [] k v = [(k, v)]"
| "map_set ((k', v') # m) k v = (if k' = k then (k, v) # m else (k', v') # map_set m k v)"

definition map_get :: "(string \<times> 'v) list \<Rightarrow> string \<Rightarrow> 'v option" where
  "map_get m k = map_of m k"

definition map_values :: "(string \<times> 'v) list \<Rightarrow> 'v list" where
  "map_values m = map snd m"

text \<open>The remainder operator \<open>%\<close> takes the sign of the dividend.\<close>

definition js_rem :: "int \<Rightarrow> int \<Rightarrow> int" where
  "js_rem a b = (if 0 \<le> a then a mod \<bar>b\<bar> else - ((- a) mod \<bar>b\<bar>))"

fun js_add :: "number \<Rightarrow> int \<Rightarrow> number" where
  "js_add (Num a) b = Num (a + b)"
| "js_add NegInfinity b = NegInfinity"
| "js_add NaN b = NaN"

fun js_max :: "number \<Rightarrow> number \<Rightarrow> number" where
  "js_max NaN b = NaN"
| "js_max a NaN = NaN"
| "js_max NegInfinity b = b"
| "js_max a NegInfinity = a"
| "js_max (Num a) (Num b) = Num (max a b)"

definition Math_max :: "number list \<Rightarrow> number" where
  "Math_max as = foldl js_max NegInfinity as"

subsection \<open>Step 2 of the source: ranks\<close>

text \<open>\<open>ranks\<close> is a \<open>Map<string, number>\<close> used through \<open>has\<close>, \<open>get\<close>, \<open>set\<close> only.\<close>

type_synonym ranks = "string \<rightharpoonup> int"

definition cmpDate :: "WorkflowNode \<Rightarrow> WorkflowNode \<Rightarrow> int" where
  "cmpDate a b = date a - date b"

fun initRoots :: "WorkflowNode list \<Rightarrow> ranks \<Rightarrow> ranks" where
  "initRoots [] ranks = ranks"
| "initRoots (node # rest) ranks =
     initRoots rest (if parentIds node = [] then ranks(node_id node \<mapsto> 0) else ranks)"

text \<open>The inner \<open>forEach\<close> over \<open>parentIds\<close>, on \<open>(maxParentRank, hasParentRank)\<close>.\<close>

fun scanParents :: "ranks \<Rightarrow> string list \<Rightarrow> int \<times> bool \<Rightarrow> int \<times> bool" where
  "scanParents ranks [] acc = acc"
| "scanParents ranks (pid # pids) (maxParentRank, hasParentRank) =
     scanParents ranks pids
       (case ranks pid of
          Some r \<Rightarrow> (max maxParentRank r, True)
        | None \<Rightarrow> (maxParentRank, hasParentRank))"

definition rankNode :: "WorkflowNode \<Rightarrow> ranks \<times> bool \<Rightarrow> ranks \<times> bool" where
  "rankNode node st =
     (case st of (ranks, changed) \<Rightarrow>
        if parentIds node \<noteq> [] then
          (case scanParents ranks (parentIds node) (- 1, False) of
             (maxParentRank, hasParentRank) \<Rightarrow>
               if hasParentRank then
                 (let newRank = maxParentRank + 1 in
                  if (case ranks (node_id node) of Some r \<Rightarrow> r | None \<Rightarrow> - 1) < newRank
                  then (ranks(node_id node \<mapsto> newRank), True)
                  else (ranks, changed))
               else (ranks, changed))
        else (ranks, changed))"

fun rankPass :: "WorkflowNode list \<Rightarrow> ranks \<times> bool \<Rightarrow> ranks \<times> bool" where
  "rankPass [] st = st"
| "rankPass (node # rest) st = rankPass rest (rankNode node st)"

text \<open>
  The \<open>while (changed && iterations < maxIterations)\<close> loop. The result carries the
  number of passes made next to the ranks.
\<close>

function rankLoop :: "WorkflowNode list \<Rightarrow> nat \<Rightarrow> ranks \<Rightarrow> bool \<Rightarrow> nat \<Rightarrow> ranks \<times> nat" where
  "rankLoop sortedNodes maxIterations ranks changed iterations =
     (if changed \<and> iterations < maxIterations then
        (case rankPass sortedNodes (ranks, False) of
           (ranks', changed') \<Rightarrow>
             rankLoop sortedNodes maxIterations ranks' changed' (iterations + 1))
      else (ranks, iterations))"
  by pat_completeness auto
termination
  by (relation "measure (\<lambda>(sortedNodes, maxIterations, ranks, changed, iterations).
        maxIterations - iterations)") auto

declare rankLoop.simps [simp del]

fun fallback :: "WorkflowNode list \<Rightarrow> nat \<Rightarrow> ranks \<Rightarrow> ranks" where
  "fallback [] index ranks = ranks"
| "fallback (node # rest) index ranks =
     fallback rest (index + 1)
       (if ranks (node_id node) = None then ranks(node_id node \<mapsto> int index) else ranks)"

definition rankPhase :: "WorkflowNode list \<Rightarrow> ranks \<times> nat" where
  "rankPhase ns =
     (let sortedNodes = sort_by cmpDate ns
      in rankLoop sortedNodes (length ns + 2) (initRoots sortedNodes Map.empty) True 0)"

definition computeRanks :: "WorkflowNode list \<Rightarrow> ranks" where
  "computeRanks ns = fallback (sort_by cmpDate ns) 0 (fst (rankPhase ns))"

subsection \<open>Step 3 of the source: lanes, colours, coordinates\<close>

definition cmpRank :: "ranks \<Rightarrow> WorkflowNode \<Rightarrow> WorkflowNode \<Rightarrow> int" where
  "cmpRank ranks a b =
     (let rA = (case ranks (node_id a) of Some r \<Rightarrow> r | None \<Rightarrow> 0);
          rB = (case ranks (node_id b) of Some r \<Rightarrow> r | None \<Rightarrow> 0)
      in if rA \<noteq> rB then rA - rB else date a - date b)"

text \<open>\<open>laneAllocation\<close>: lane index to the id of the node that claimed it last.\<close>

type_synonym laneAllocation = "int \<rightharpoonup> string"

type_synonym nodeMap = "(string \<times> RenderedNode) list"

text \<open>The inheritance attempt; \<open>- 1\<close> is the source's "no lane yet".\<close>

definition inheritLane :: "nodeMap \<Rightarrow> laneAllocation \<Rightarrow> WorkflowNode \<Rightarrow> int" where
  "inheritLane nodeMap laneAlloc node =
     (case parentIds node of
        [] \<Rightarrow> - 1
      | firstParentId # _ \<Rightarrow>
          (case map_get nodeMap firstParentId of
             None \<Rightarrow> - 1
           | Some firstParent \<Rightarrow>
               if laneAlloc (lane firstParent) = Some (node_id firstParent)
               then lane firstParent else - 1))"

text \<open>The scan \<open>while (true) { if free then break; l++ }\<close>.\<close>

partial_function (option) findLane :: "laneAllocation \<Rightarrow> int \<Rightarrow> int option" where
  "findLane laneAlloc l = (if laneAlloc l = None then Some l else findLane laneAlloc (l + 1))"

declare findLane.simps [code]

definition nodeColor :: "int \<Rightarrow> NodeStatus \<Rightarrow> string option" where
  "nodeColor assignedLane st =
     (if st = Abandoned then Some ''#64748b''
      else if st = Standby then Some ''#f59e0b''
      else (let i = js_rem assignedLane (int (length COLORS))
            in if 0 \<le> i \<and> i < int (length COLORS) then Some (COLORS ! nat i) else None))"

text \<open>\<open>rank * k + 50\<close>, where \<open>rank\<close> is \<open>ranks.get(node.id)\<close> and may be undefined.\<close>

definition rankCoord :: "int option \<Rightarrow> int \<Rightarrow> number" where
  "rankCoord rank k = (case rank of Some r \<Rightarrow> Num (r * k + 50) | None \<Rightarrow> NaN)"

definition render :: "WorkflowNode \<Rightarrow> int option \<Rightarrow> LayoutOrientation \<Rightarrow> int \<Rightarrow> RenderedNode" where
  "render node rank orientation assignedLane =
     WorkflowNode.extend node
       (RenderedNode.fields
          (if orientation = Vertical then Num (assignedLane * (NODE_WIDTH + GAP_X) + 50)
           else rankCoord rank H_GAP_X)
          (if orientation = Vertical then rankCoord rank (NODE_HEIGHT + GAP_Y)
           else Num (assignedLane * (H_NODE_HEIGHT + H_GAP_Y) + 50))
          assignedLane
          (nodeColor assignedLane (status node)))"

definition layoutNode ::
  "ranks \<Rightarrow> LayoutOrientation \<Rightarrow> nodeMap \<times> laneAllocation \<Rightarrow> WorkflowNode \<Rightarrow>
   (nodeMap \<times> laneAllocation) option" where
  "layoutNode ranks orientation st node =
     (case st of (nodeMap, laneAlloc) \<Rightarrow>
        (let inherited = inheritLane nodeMap laneAlloc node in
         case (if inherited = - 1 then findLane laneAlloc 0 else Some inherited) of
           None \<Rightarrow> None
         | Some assignedLane \<Rightarrow>
             Some (map_set nodeMap (node_id node)
                     (render node (ranks (node_id node)) orientation assignedLane),
                   laneAlloc(assignedLane \<mapsto> node_id node))))"

fun layoutPass ::
  "ranks \<Rightarrow> LayoutOrientation \<Rightarrow> WorkflowNode list \<Rightarrow> nodeMap \<times> laneAllocation \<Rightarrow>
   (nodeMap \<times> laneAllocation) option" where
  "layoutPass ranks orientation [] st = Some st"
| "layoutPass ranks orientation (node # rest) st =
     (case layoutNode ranks orientation st node of
        None \<Rightarrow> None
      | Some st' \<Rightarrow> layoutPass ranks orientation rest st')"

subsection \<open>Edges and canvas bounds\<close>

definition edgeColor :: "RenderedNode \<Rightarrow> RenderedNode \<Rightarrow> string option" where
  "edgeColor parent node =
     (if status node = Abandoned then Some ''#94a3b8''
      else if status node = Standby then Some ''#fbbf24''
      else color parent)"

text \<open>The edges one rendered node pushes: one for each parent id found in \<open>nodeMap\<close>.\<close>

fun nodeEdges :: "nodeMap \<Rightarrow> RenderedNode \<Rightarrow> string list \<Rightarrow> RenderedEdge list" where
  "nodeEdges nodeMap node [] = []"
| "nodeEdges nodeMap node (parentId # rest) =
     (case map_get nodeMap parentId of
        Some parent \<Rightarrow>
          \<lparr>edge_id = node_id parent @ ''-'' @ node_id node,
           sourceX = x parent, sourceY = y parent,
           targetX = x node, targetY = y node,
           edge_color = edgeColor parent node,
           edge_status = status node\<rparr> # nodeEdges nodeMap node rest
      | None \<Rightarrow> nodeEdges nodeMap node rest)"

definition renderEdges :: "nodeMap \<Rightarrow> RenderedEdge list" where
  "renderEdges nodeMap =
     concat (map (\<lambda>node. nodeEdges nodeMap node (parentIds node)) (map_values nodeMap))"

subsection \<open>calculateLayout\<close>

text \<open>
  \<open>innerWidth\<close> and \<open>innerHeight\<close> are the two reads of \<open>window\<close>. The result is
  \<open>None\<close> exactly when a lane scan does not return.
\<close>

definition layoutNodes :: "WorkflowNode list \<Rightarrow> WorkflowNode list" where
  "layoutNodes ns = sort_by (cmpRank (computeRanks ns)) (sort_by cmpDate ns)"

definition calculateLayout ::
  "int \<Rightarrow> int \<Rightarrow> WorkflowNode list \<Rightarrow> LayoutOrientation \<Rightarrow> Layout option" where
  "calculateLayout innerWidth innerHeight ns orientation =
     (case layoutPass (computeRanks ns) orientation (layoutNodes ns) ([], Map.empty) of
        None \<Rightarrow> None
      | Some (nodeMap, laneAlloc) \<Rightarrow>
          (let renderedNodes = map_values nodeMap;
               maxX = js_add (js_add (Math_max (map x renderedNodes))
                        (if orientation = Vertical then NODE_WIDTH else H_NODE_WIDTH)) 100;
               maxY = js_add (js_add (Math_max (map y renderedNodes))
                        (if orientation = Vertical then NODE_HEIGHT else H_NODE_HEIGHT)) 100
           in Some \<lparr>nodes = renderedNodes,
                    edges = renderEdges nodeMap,
                    width = js_max maxX (Num innerWidth),
                    height = js_max maxY (Num innerHeight)\<rparr>))"

subsection \<open>Notions used to state the properties\<close>

text \<open>The claimed lanes are exactly the indices \<open>0, ..., k - 1\<close>.\<close>

definition packed :: "laneAllocation \<Rightarrow> int \<Rightarrow> bool" where
  "packed a k = (0 \<le> k \<and> dom a = {0..<k})"

text \<open>The lane a node gets when \<open>k\<close> is the first free index.\<close>

definition chosenLane :: "nodeMap \<Rightarrow> laneAllocation \<Rightarrow> int \<Rightarrow> WorkflowNode \<Rightarrow> int" where
  "chosenLane nm a k n = (if inheritLane nm a n = - 1 then k else inheritLane nm a n)"

text \<open>An entry of \<open>nodeMap\<close> that was stored for one of the nodes in \<open>S\<close>.\<close>

definition fromNodes ::
  "ranks \<Rightarrow> LayoutOrientation \<Rightarrow> WorkflowNode set \<Rightarrow> string \<times> RenderedNode \<Rightarrow> bool" where
  "fromNodes ranks ori S e =
     (\<exists>n\<in>S. fst e = node_id n \<and> snd e = render n (ranks (node_id n)) ori (lane (snd e)))"

text \<open>
  The parent relation on ids, as pairs (parent id, child id), and the input condition that
  every listed parent id is the id of some node of the list.
\<close>

definition parentRel :: "WorkflowNode list \<Rightarrow> (string \<times> string) set" where
  "parentRel ns = set (concat (map (\<lambda>n. map (\<lambda>p. (p, node_id n)) (parentIds n)) ns))"

definition parentsPresent :: "WorkflowNode list \<Rightarrow> bool" where
  "parentsPresent ns = (set (concat (map parentIds ns)) \<subseteq> set (map node_id ns))"

text \<open>
  \<open>d\<close> gives every node id its depth: 0 for a node without parents, else one more than
  the depth of its deepest parent.
\<close>

definition depthFn :: "WorkflowNode list \<Rightarrow> (string \<Rightarrow> nat) \<Rightarrow> bool" where
  "depthFn ns d =
     (\<forall>n\<in>set ns. d (node_id n) =
        (if parentIds n = [] then 0 else Suc (Max (d ` set (parentIds n)))))"

text \<open>
  Two facts about a rank map while the loop runs: no rank is above the depth, and the
  nodes of \<open>S\<close> with depth at most \<open>k\<close> already hold their depth as rank.
\<close>

definition ranksBelow :: "(string \<Rightarrow> nat) \<Rightarrow> ranks \<Rightarrow> bool" where
  "ranksBelow d r = (\<forall>c v. r c = Some v \<longrightarrow> 0 \<le> v \<and> v \<le> int (d c))"

definition ranksSettled :: "(string \<Rightarrow> nat) \<Rightarrow> WorkflowNode set \<Rightarrow> nat \<Rightarrow> ranks \<Rightarrow> bool" where
  "ranksSettled d S k r =
     (\<forall>n\<in>S. d (node_id n) \<le> k \<longrightarrow> r (node_id n) = Some (int (d (node_id n))))"

text \<open>The rank map has no entry for the node \<open>n\<close> and none outside the ids of \<open>S\<close>.\<close>

definition unranked :: "WorkflowNode \<Rightarrow> WorkflowNode set \<Rightarrow> ranks \<Rightarrow> bool" where
  "unranked n S r = (r (node_id n) = None \<and> dom r \<subseteq> node_id ` S)"

text \<open>
  Forgetting the status of an input node, and the status and colour of a rendered node:
  two lists are element-wise identical except for the status fields when they agree
  after \<open>eraseStatus\<close>.
\<close>

definition eraseStatus :: "WorkflowNode \<Rightarrow> WorkflowNode" where
  "eraseStatus n = n\<lparr>status := Active\<rparr>"

definition eraseStyle :: "RenderedNode \<Rightarrow> RenderedNode" where
  "eraseStyle rn = rn\<lparr>status := Active, color := None\<rparr>"

definition eraseMap :: "nodeMap \<Rightarrow> nodeMap" where
  "eraseMap nm = map (\<lambda>e. (fst e, eraseStyle (snd e))) nm"

definition eraseState :: "nodeMap \<times> laneAllocation \<Rightarrow> nodeMap \<times> laneAllocation" where
  "eraseState st = (eraseMap (fst st), snd st)"

text \<open>Concrete nodes for the examples; \<open>diamond\<close> is the scenario of the specification.\<close>

definition mkNode :: "string \<Rightarrow> int \<Rightarrow> NodeStatus \<Rightarrow> string list \<Rightarrow> WorkflowNode" where
  "mkNode i d s ps =
     \<lparr>node_id = i, title = [], description = [], date = d, status = s, parentIds = ps\<rparr>"

definition diamond :: "WorkflowNode list" where
  "diamond = [mkNode ''A'' 0 Active [], mkNode ''B'' 1 Active [''A''],
              mkNode ''C'' 2 Active [''A''], mkNode ''D'' 3 Active [''B'', ''C'']]"

definition rnode :: "string \<Rightarrow> int \<Rightarrow> string list \<Rightarrow> int \<Rightarrow> int \<Rightarrow> int \<Rightarrow> string \<Rightarrow> RenderedNode" where
  "rnode i d ps px py l c =
     \<lparr>node_id = i, title = [], description = [], date = d, status = Active, parentIds = ps,
      x = Num px, y = Num py, lane = l, color = Some c\<rparr>"

definition twins :: "WorkflowNode list" where
  "twins = [mkNode ''A'' 0 Active [], mkNode ''A'' 1 Active []]"

definition dupRoot :: "WorkflowNode list" where
  "dupRoot = [mkNode ''A'' 0 Active [], mkNode ''A'' 1 Active [''B''], mkNode ''B'' 2 Active []]"

definition cyclePair :: "WorkflowNode list" where
  "cyclePair = [mkNode ''A'' 0 Active [''B''], mkNode ''B'' 1 Active [''A'']]"

definition danglingPair :: "WorkflowNode list" where
  "danglingPair = [mkNode ''A'' 0 Active [], mkNode ''B'' 1 Active [''Z'']]"

definition diamondStyled :: "WorkflowNode list" where
  "diamondStyled = [mkNode ''A'' 0 Completed [], mkNode ''B'' 1 Abandoned [''A''],
                    mkNode ''C'' 2 Active [''A''], mkNode ''D'' 3 Standby [''B'', ''C'']]"

section \<open>Lemmas about the lane pass\<close>


lemma render_simps [simp]:
  "lane (render n r ori l) = l"
  "node_id (render n r ori l) = node_id n"
  "parentIds (render n r ori l) = parentIds n"
  "status (render n r ori l) = status n"
  "date (render n r ori l) = date n"
  "color (render n r ori l) = nodeColor l (status n)"
  by (simp_all add: render_def WorkflowNode.extend_def RenderedNode.fields_def)

lemma findLane_skip:
  "(\<And>j. l \<le> j \<Longrightarrow> j < l + int n \<Longrightarrow> a j \<noteq> None) \<Longrightarrow> findLane a l = findLane a (l + int n)"
proof (induction n arbitrary: l)
  case 0
  then show ?case by simp
next
  case (Suc n)
  have "a l \<noteq> None" using Suc.prems[of l] by simp
  then have "findLane a l = findLane a (l + 1)" by (subst findLane.simps) auto
  also have "\<dots> = findLane a (l + 1 + int n)"
    by (rule Suc.IH) (use Suc.prems in auto)
  finally show ?case by (simp add: add.assoc)
qed

lemma findLane_packed:
  assumes "0 \<le> k" "dom a = {0..<k}"
  shows "findLane a 0 = Some k"
proof -
  have "findLane a 0 = findLane a (0 + int (nat k))"
    by (rule findLane_skip) (use assms in auto)
  also have "\<dots> = findLane a k" using assms by simp
  also have "\<dots> = Some k"
    using assms by (subst findLane.simps) (auto simp: domIff)
  finally show ?thesis .
qed

lemma map_get_map_set [simp]:
  "map_get (map_set m k v) k' = (if k' = k then Some v else map_get m k')"
  by (induction m) (auto simp: map_get_def)

lemma map_values_map_set:
  "set (map_values (map_set m k v)) \<subseteq> insert v (set (map_values m))"
proof (induction m)
  case Nil
  then show ?case by (simp add: map_values_def)
next
  case (Cons e m)
  obtain k' v' where e: "e = (k', v')" by (cases e)
  show ?case using Cons e by (cases "k' = k") (auto simp: map_values_def)
qed

lemma inheritLane_claimed:
  "inheritLane nm a n \<noteq> - 1 \<Longrightarrow> inheritLane nm a n \<in> dom a"
  by (auto simp: inheritLane_def split: list.splits option.splits if_splits)

lemma layoutNode_packed:
  assumes "packed a k"
  shows "layoutNode ranks ori (nm, a) n =
           Some (map_set nm (node_id n) (render n (ranks (node_id n)) ori (chosenLane nm a k n)),
                 a(chosenLane nm a k n \<mapsto> node_id n))"
  using assms findLane_packed[of k a]
  by (simp add: layoutNode_def chosenLane_def packed_def Let_def)

lemma chosenLane_range:
  assumes "packed a k"
  shows "0 \<le> chosenLane nm a k n \<and> chosenLane nm a k n \<le> k"
  using assms inheritLane_claimed[of nm a n]
  by (auto simp: chosenLane_def packed_def)

lemma packed_step:
  assumes "packed a k"
  shows "packed (a(chosenLane nm a k n \<mapsto> i)) (if chosenLane nm a k n = k then k + 1 else k)"
  using assms chosenLane_range[OF assms, of nm n]
  by (auto simp: packed_def)

lemma layoutPass_packed:
  assumes "packed a k" "\<forall>rn\<in>set (map_values nm). 0 \<le> lane rn \<and> lane rn < k"
  shows "\<exists>nm' a' k'. layoutPass ranks ori ns (nm, a) = Some (nm', a') \<and> packed a' k' \<and>
           k \<le> k' \<and> k' \<le> k + int (length ns) \<and> dom a \<subseteq> dom a' \<and>
           (\<forall>rn\<in>set (map_values nm'). 0 \<le> lane rn \<and> lane rn < k')"
  using assms
proof (induction ns arbitrary: nm a k)
  case Nil
  then show ?case by auto
next
  case (Cons n ns)
  let ?l = "chosenLane nm a k n"
  let ?nm = "map_set nm (node_id n) (render n (ranks (node_id n)) ori ?l)"
  let ?a = "a(?l \<mapsto> node_id n)"
  let ?k = "if ?l = k then k + 1 else k"
  have step: "layoutNode ranks ori (nm, a) n = Some (?nm, ?a)"
    by (rule layoutNode_packed[OF Cons.prems(1)])
  have p: "packed ?a ?k" by (rule packed_step[OF Cons.prems(1)])
  have r: "0 \<le> ?l \<and> ?l \<le> k" by (rule chosenLane_range[OF Cons.prems(1)])
  have v: "\<forall>rn\<in>set (map_values ?nm). 0 \<le> lane rn \<and> lane rn < ?k"
  proof
    fix rn assume "rn \<in> set (map_values ?nm)"
    then have "rn = render n (ranks (node_id n)) ori ?l \<or> rn \<in> set (map_values nm)"
      using map_values_map_set by fastforce
    then show "0 \<le> lane rn \<and> lane rn < ?k"
      using r Cons.prems(2) by auto
  qed
  from Cons.IH[OF p v] obtain nm' a' k' where
    IH: "layoutPass ranks ori ns (?nm, ?a) = Some (nm', a')" "packed a' k'" "?k \<le> k'"
      "k' \<le> ?k + int (length ns)" "dom ?a \<subseteq> dom a'"
      "\<forall>rn\<in>set (map_values nm'). 0 \<le> lane rn \<and> lane rn < k'"
    by blast
  have "layoutPass ranks ori (n # ns) (nm, a) = Some (nm', a')"
    using step IH(1) by simp
  moreover have "k \<le> k'" using IH(3) by (simp split: if_splits)
  moreover have "k' \<le> k + int (length (n # ns))" using IH(4) by (simp split: if_splits)
  moreover have "dom a \<subseteq> dom a'" using IH(5) by auto
  ultimately show ?case using IH(2,6) by blast
qed

lemma layoutPass_append:
  "layoutPass ranks ori (pre @ post) st =
     (case layoutPass ranks ori pre st of None \<Rightarrow> None | Some st' \<Rightarrow> layoutPass ranks ori post st')"
  by (induction pre arbitrary: st) (auto split: option.splits)

lemma layoutPass_init:
  assumes "layoutPass ranks ori pre ([], Map.empty) = Some (nm, a)"
  shows "\<exists>k. packed a k \<and> k \<le> int (length pre) \<and>
           (\<forall>rn\<in>set (map_values nm). 0 \<le> lane rn \<and> lane rn < k)"
proof -
  have "packed Map.empty 0" by (simp add: packed_def)
  moreover have "\<forall>rn\<in>set (map_values ([]::nodeMap)). 0 \<le> lane rn \<and> lane rn < 0"
    by (simp add: map_values_def)
  ultimately show ?thesis
    using layoutPass_packed[of Map.empty 0 "[]" ranks ori pre] assms by auto
qed

section \<open>Lemmas about sorting, the node map and the fallback\<close>


lemma mset_insert_by [simp]: "mset (insert_by cmp a bs) = add_mset a (mset bs)"
  by (induction bs) auto

lemma mset_sort_by [simp]: "mset (sort_by cmp as) = mset as"
  by (induction as) (auto simp: sort_by_def)

lemma set_sort_by [simp]: "set (sort_by cmp as) = set as"
  using mset_sort_by[of cmp as] by (metis set_mset_mset)

lemma length_sort_by [simp]: "length (sort_by cmp as) = length as"
  using mset_sort_by[of cmp as] by (metis size_mset)

lemma set_layoutNodes [simp]: "set (layoutNodes ns) = set ns"
  by (simp add: layoutNodes_def)

lemma length_layoutNodes [simp]: "length (layoutNodes ns) = length ns"
  by (simp add: layoutNodes_def)

lemma set_map_set: "set (map_set m k v) \<subseteq> insert (k, v) (set m)"
proof (induction m)
  case Nil
  then show ?case by simp
next
  case (Cons e m)
  obtain k' v' where e: "e = (k', v')" by (cases e)
  show ?case using Cons e by (cases "k' = k") auto
qed

lemma keys_map_set: "set (map fst (map_set m k v)) = insert k (set (map fst m))"
proof (induction m)
  case Nil
  then show ?case by simp
next
  case (Cons e m)
  obtain k' v' where e: "e = (k', v')" by (cases e)
  show ?case using Cons e by (cases "k' = k") auto
qed

lemma distinct_map_set: "distinct (map fst m) \<Longrightarrow> distinct (map fst (map_set m k v))"
proof (induction m)
  case Nil
  then show ?case by simp
next
  case (Cons e m)
  obtain k' v' where e: "e = (k', v')" by (cases e)
  show ?case
  proof (cases "k' = k")
    case True
    then show ?thesis using Cons.prems e by simp
  next
    case False
    have "k' \<notin> set (map fst (map_set m k v))"
      using Cons.prems e False keys_map_set[of m k v] by auto
    then show ?thesis using Cons e False by simp
  qed
qed

lemma layoutNode_SomeD:
  assumes "layoutNode ranks ori (nm, a) n = Some st'"
  shows "\<exists>l. st' = (map_set nm (node_id n) (render n (ranks (node_id n)) ori l),
                    a(l \<mapsto> node_id n))"
  using assms by (auto simp: layoutNode_def Let_def split: option.splits)

lemma layoutPass_entries:
  assumes "layoutPass ranks ori ns (nm, a) = Some (nm', a')"
  shows "(\<forall>e\<in>set nm'. e \<in> set nm \<or> fromNodes ranks ori (set ns) e) \<and>
         set (map fst nm') = set (map fst nm) \<union> node_id ` set ns \<and>
         (distinct (map fst nm) \<longrightarrow> distinct (map fst nm'))"
  using assms
proof (induction ns arbitrary: nm a)
  case Nil
  then show ?case by simp
next
  case (Cons n ns)
  from Cons.prems obtain st1 where
    s1: "layoutNode ranks ori (nm, a) n = Some st1" and
    s2: "layoutPass ranks ori ns st1 = Some (nm', a')"
    by (auto split: option.splits)
  from layoutNode_SomeD[OF s1] obtain l where
    st1: "st1 = (map_set nm (node_id n) (render n (ranks (node_id n)) ori l), a(l \<mapsto> node_id n))"
    by blast
  let ?v = "render n (ranks (node_id n)) ori l"
  let ?nm = "map_set nm (node_id n) ?v"
  note IH = Cons.IH[OF s2[unfolded st1]]
  have new: "fromNodes ranks ori (set (n # ns)) (node_id n, ?v)"
    by (simp add: fromNodes_def)
  have e: "\<forall>e\<in>set nm'. e \<in> set nm \<or> fromNodes ranks ori (set (n # ns)) e"
  proof
    fix e assume "e \<in> set nm'"
    then consider "e \<in> set ?nm" | "fromNodes ranks ori (set ns) e" using IH by blast
    then show "e \<in> set nm \<or> fromNodes ranks ori (set (n # ns)) e"
    proof cases
      case 1
      then have "e = (node_id n, ?v) \<or> e \<in> set nm" using set_map_set by fastforce
      then show ?thesis using new by blast
    next
      case 2
      then show ?thesis by (auto simp: fromNodes_def)
    qed
  qed
  have k: "set (map fst nm') = set (map fst nm) \<union> node_id ` set (n # ns)"
    using IH keys_map_set[of nm "node_id n" ?v] by auto
  have d: "distinct (map fst nm) \<longrightarrow> distinct (map fst nm')"
    using IH distinct_map_set[of nm "node_id n" ?v] by blast
  show ?case using e k d by blast
qed

lemma fallback_dom: "dom (fallback ns i r) = dom r \<union> node_id ` set ns"
  by (induction ns arbitrary: i r) (auto split: if_splits)

lemma computeRanks_total: "n \<in> set ns \<Longrightarrow> \<exists>r. computeRanks ns (node_id n) = Some r"
  using fallback_dom[of "sort_by cmpDate ns" 0 "fst (rankPhase ns)"]
  by (auto simp: computeRanks_def)

section \<open>Lemmas about the whole layout\<close>

lemma layoutPass_total:
  "\<exists>nm a. layoutPass ranks ori ns ([], Map.empty) = Some (nm, a)"
proof -
  have "packed Map.empty 0" by (simp add: packed_def)
  moreover have "\<forall>rn\<in>set (map_values ([]::nodeMap)). 0 \<le> lane rn \<and> lane rn < 0"
    by (simp add: map_values_def)
  ultimately show ?thesis
    using layoutPass_packed[of Map.empty 0 "[]" ranks ori ns] by blast
qed

lemma calculateLayout_SomeD:
  assumes "calculateLayout w h ns ori = Some res"
  shows "\<exists>nm a. layoutPass (computeRanks ns) ori (layoutNodes ns) ([], Map.empty) = Some (nm, a) \<and>
           nodes res = map_values nm \<and> edges res = renderEdges nm"
  using assms by (auto simp: calculateLayout_def Let_def split: option.splits)

lemma calculateLayout_total: "\<exists>res. calculateLayout w h ns ori = Some res"
  using layoutPass_total[of "computeRanks ns" ori "layoutNodes ns"]
  by (auto simp: calculateLayout_def Let_def)

lemma rendered_from_input:
  assumes "calculateLayout w h ns ori = Some res" "rn \<in> set (nodes res)"
  shows "\<exists>n\<in>set ns. node_id rn = node_id n \<and>
           rn = render n (computeRanks ns (node_id n)) ori (lane rn)"
proof -
  from calculateLayout_SomeD[OF assms(1)] obtain nm a where
    p: "layoutPass (computeRanks ns) ori (layoutNodes ns) ([], Map.empty) = Some (nm, a)" and
    n: "nodes res = map_values nm"
    by blast
  from assms(2) n obtain k where "(k, rn) \<in> set nm" by (auto simp: map_values_def)
  then have "fromNodes (computeRanks ns) ori (set (layoutNodes ns)) (k, rn)"
    using layoutPass_entries[OF p] by auto
  then obtain n where n: "n \<in> set ns" and
    e: "rn = render n (computeRanks ns (node_id n)) ori (lane rn)"
    by (auto simp: fromNodes_def)
  have "node_id rn = node_id n" by (subst e) simp
  then show ?thesis using n e by blast
qed

lemma render_coords:
  "x (render n (Some r) ori l) =
     (if ori = Vertical then Num (l * (NODE_WIDTH + GAP_X) + 50) else Num (r * H_GAP_X + 50))"
  "y (render n (Some r) ori l) =
     (if ori = Vertical then Num (r * (NODE_HEIGHT + GAP_Y) + 50)
      else Num (l * (H_NODE_HEIGHT + H_GAP_Y) + 50))"
  by (simp_all add: render_def WorkflowNode.extend_def RenderedNode.fields_def rankCoord_def)

lemma computeRanks_diamond:
  "computeRanks diamond = [''A'' \<mapsto> 0, ''B'' \<mapsto> 1, ''C'' \<mapsto> 1, ''D'' \<mapsto> 2]"
  by (simp add: computeRanks_def rankPhase_def diamond_def mkNode_def sort_by_def cmpDate_def
      rankLoop.simps rankNode_def)

lemma layoutNodes_diamond: "layoutNodes diamond = diamond"
  by (simp add: layoutNodes_def computeRanks_diamond)
     (simp add: diamond_def mkNode_def sort_by_def cmpDate_def cmpRank_def)

lemma layoutPass_diamond:
  "layoutPass (computeRanks diamond) Vertical diamond ([], Map.empty) =
     Some ([(''A'', rnode ''A'' 0 [] 50 50 0 ''#3b82f6''),
            (''B'', rnode ''B'' 1 [''A''] 50 250 0 ''#3b82f6''),
            (''C'', rnode ''C'' 2 [''A''] 280 250 1 ''#10b981''),
            (''D'', rnode ''D'' 3 [''B'', ''C''] 50 450 0 ''#3b82f6'')],
           [0 \<mapsto> ''D'', 1 \<mapsto> ''C''])"
  unfolding computeRanks_diamond
  apply (simp add: diamond_def mkNode_def layoutNode_def inheritLane_def findLane.simps map_get_def
      render_def WorkflowNode.extend_def RenderedNode.fields_def nodeColor_def js_rem_def COLORS_def
      rankCoord_def NODE_WIDTH_def GAP_X_def NODE_HEIGHT_def GAP_Y_def rnode_def)
  apply (rule ext)
  apply simp
  done

lemma calculateLayout_lanes:
  assumes "calculateLayout w h ns ori = Some res" "rn \<in> set (nodes res)"
  shows "0 \<le> lane rn \<and> lane rn < int (length ns)"
proof -
  from calculateLayout_SomeD[OF assms(1)] obtain nm a where
    p: "layoutPass (computeRanks ns) ori (layoutNodes ns) ([], Map.empty) = Some (nm, a)" and
    n: "nodes res = map_values nm"
    by blast
  from layoutPass_init[OF p] obtain k where
    "k \<le> int (length (layoutNodes ns))" "\<forall>rn\<in>set (map_values nm). 0 \<le> lane rn \<and> lane rn < k"
    by blast
  then show ?thesis using assms(2) n by fastforce
qed

lemma nodeColor_Some: "0 \<le> l \<Longrightarrow> \<exists>c. nodeColor l st = Some c"
  by (simp add: nodeColor_def js_rem_def COLORS_def Let_def)

lemma computeRanks_twins: "computeRanks twins = [''A'' \<mapsto> 0]"
  by (simp add: computeRanks_def rankPhase_def twins_def mkNode_def sort_by_def cmpDate_def
      rankLoop.simps rankNode_def)

lemma calculateLayout_twins:
  "calculateLayout 800 600 twins Vertical =
     Some \<lparr>nodes = [rnode ''A'' 1 [] 280 50 1 ''#10b981''], edges = [],
           width = Num 800, height = Num 600\<rparr>"
  unfolding calculateLayout_def layoutNodes_def computeRanks_twins
  by (simp add: twins_def mkNode_def sort_by_def cmpDate_def cmpRank_def
      layoutNode_def inheritLane_def findLane.simps map_get_def
      render_def WorkflowNode.extend_def RenderedNode.fields_def nodeColor_def js_rem_def COLORS_def
      rankCoord_def NODE_WIDTH_def GAP_X_def NODE_HEIGHT_def GAP_Y_def rnode_def
      map_values_def Math_max_def renderEdges_def)

lemma calculateLayout_nodesI:
  assumes "layoutPass (computeRanks ns) ori (layoutNodes ns) ([], Map.empty) = Some (nm, a)"
  shows "\<exists>res. calculateLayout w h ns ori = Some res \<and> nodes res = map_values nm \<and>
           edges res = renderEdges nm"
  using assms by (simp add: calculateLayout_def Let_def)

lemma calculateLayout_twins_horizontal:
  "calculateLayout 800 600 twins Horizontal =
     Some \<lparr>nodes = [rnode ''A'' 1 [] 50 230 1 ''#10b981''], edges = [],
           width = Num 800, height = Num 600\<rparr>"
  unfolding calculateLayout_def layoutNodes_def computeRanks_twins
  by (simp add: twins_def mkNode_def sort_by_def cmpDate_def cmpRank_def
      layoutNode_def inheritLane_def findLane.simps map_get_def
      render_def WorkflowNode.extend_def RenderedNode.fields_def nodeColor_def js_rem_def COLORS_def
      rankCoord_def H_NODE_WIDTH_def H_GAP_X_def H_NODE_HEIGHT_def H_GAP_Y_def rnode_def
      map_values_def Math_max_def renderEdges_def)

lemma layoutPass_diamond_A:
  "layoutPass (computeRanks diamond) Vertical [mkNode ''A'' 0 Active []] ([], Map.empty) =
     Some ([(''A'', rnode ''A'' 0 [] 50 50 0 ''#3b82f6'')], [0 \<mapsto> ''A''])"
  unfolding computeRanks_diamond
  by (simp add: mkNode_def layoutNode_def inheritLane_def findLane.simps map_get_def
      render_def WorkflowNode.extend_def RenderedNode.fields_def nodeColor_def js_rem_def COLORS_def
      rankCoord_def NODE_WIDTH_def GAP_X_def NODE_HEIGHT_def GAP_Y_def rnode_def)

lemma layoutPass_diamond_AB:
  "layoutPass (computeRanks diamond) Vertical
     [mkNode ''A'' 0 Active [], mkNode ''B'' 1 Active [''A'']] ([], Map.empty) =
     Some ([(''A'', rnode ''A'' 0 [] 50 50 0 ''#3b82f6''),
            (''B'', rnode ''B'' 1 [''A''] 50 250 0 ''#3b82f6'')], [0 \<mapsto> ''B''])"
  unfolding computeRanks_diamond
  by (simp add: mkNode_def layoutNode_def inheritLane_def findLane.simps map_get_def
      render_def WorkflowNode.extend_def RenderedNode.fields_def nodeColor_def js_rem_def COLORS_def
      rankCoord_def NODE_WIDTH_def GAP_X_def NODE_HEIGHT_def GAP_Y_def rnode_def)

section \<open>Lemmas about the rank phase\<close>

lemma parentRel_iff: "(p, c) \<in> parentRel ns \<longleftrightarrow> (\<exists>n\<in>set ns. c = node_id n \<and> p \<in> set (parentIds n))"
  by (auto simp: parentRel_def)

lemma find_by_id:
  assumes "distinct (map node_id ns)" "n \<in> set ns"
  shows "List.find (\<lambda>m. node_id m = node_id n) ns = Some n"
  using assms
proof (induction ns)
  case Nil
  then show ?case by simp
next
  case (Cons m ns)
  then show ?case by (cases "m = n") (auto simp: image_iff)
qed

lemma depthFn_exists:
  assumes D: "distinct (map node_id ns)" and A: "acyclic (parentRel ns)"
  shows "\<exists>d. depthFn ns d"
proof -
  let ?F = "\<lambda>g c. case List.find (\<lambda>m. node_id m = c) ns of
                    None \<Rightarrow> (0::nat)
                  | Some n \<Rightarrow> if parentIds n = [] then 0 else Suc (Max (g ` set (parentIds n)))"
  let ?d = "wfrec (parentRel ns) ?F"
  have "finite (parentRel ns)" by (simp add: parentRel_def)
  then have W: "wf (parentRel ns)" using A by (rule finite_acyclic_wf)
  have "depthFn ns ?d"
    unfolding depthFn_def
  proof
    fix n assume n: "n \<in> set ns"
    have c: "cut ?d (parentRel ns) (node_id n) ` set (parentIds n) = ?d ` set (parentIds n)"
    proof (rule image_cong[OF refl])
      fix p assume "p \<in> set (parentIds n)"
      then have "(p, node_id n) \<in> parentRel ns" using n by (auto simp: parentRel_iff)
      then show "cut ?d (parentRel ns) (node_id n) p = ?d p" by (rule cut_apply)
    qed
    have "?d (node_id n) = ?F (cut ?d (parentRel ns) (node_id n)) (node_id n)"
      by (rule wfrec[OF W])
    also have "\<dots> = (if parentIds n = [] then 0 else Suc (Max (?d ` set (parentIds n))))"
      by (simp only: find_by_id[OF D n] option.case c)
    finally show "?d (node_id n) = (if parentIds n = [] then 0 else Suc (Max (?d ` set (parentIds n))))" .
  qed
  then show ?thesis by blast
qed

lemma depth_levels:
  assumes F: "depthFn ns d" and P: "parentsPresent ns"
  shows "n \<in> set ns \<Longrightarrow> d (node_id n) = k \<Longrightarrow> j \<le> k \<Longrightarrow> \<exists>m\<in>set ns. d (node_id m) = j"
proof (induction k arbitrary: n)
  case 0
  then show ?case by auto
next
  case (Suc k)
  show ?case
  proof (cases "j = Suc k")
    case True
    then show ?thesis using Suc.prems by auto
  next
    case False
    then have jk: "j \<le> k" using Suc.prems by simp
    have ne: "parentIds n \<noteq> []" using F Suc.prems by (auto simp: depthFn_def)
    then have "Max (d ` set (parentIds n)) = k"
      using F Suc.prems by (auto simp: depthFn_def)
    moreover have "Max (d ` set (parentIds n)) \<in> d ` set (parentIds n)"
      using ne by (intro Max_in) auto
    ultimately obtain p where p: "p \<in> set (parentIds n)" "d p = k" by auto
    then have "p \<in> set (map node_id ns)" using P Suc.prems(1) by (auto simp: parentsPresent_def)
    then obtain m where "m \<in> set ns" "node_id m = p" by auto
    then show ?thesis using Suc.IH[of m] p(2) jk by auto
  qed
qed

lemma depth_bound:
  assumes F: "depthFn ns d" and P: "parentsPresent ns" and n: "n \<in> set ns"
  shows "d (node_id n) < length ns"
proof -
  let ?k = "d (node_id n)"
  have "{0..?k} \<subseteq> d ` (node_id ` set ns)"
  proof
    fix j assume "j \<in> {0..?k}"
    then have "j \<le> ?k" by simp
    from depth_levels[OF F P n refl this] show "j \<in> d ` (node_id ` set ns)" by auto
  qed
  then have "card {0..?k} \<le> card (d ` (node_id ` set ns))"
    by (intro card_mono) auto
  also have "\<dots> \<le> card (set ns)"
    by (metis card_image_le List.finite_set finite_imageI order_trans)
  also have "\<dots> \<le> length ns" by (rule card_length)
  finally show ?thesis by simp
qed

lemma scanParents_has:
  "snd (scanParents r ps (m, h)) = (h \<or> (\<exists>p\<in>set ps. r p \<noteq> None))"
  by (induction ps arbitrary: m h) (auto split: option.splits)

lemma scanParents_le:
  "m \<le> b \<Longrightarrow> (\<And>p v. p \<in> set ps \<Longrightarrow> r p = Some v \<Longrightarrow> v \<le> b) \<Longrightarrow>
   fst (scanParents r ps (m, h)) \<le> b"
proof (induction ps arbitrary: m h)
  case Nil
  then show ?case by simp
next
  case (Cons p ps)
  show ?case
  proof (cases "r p")
    case None
    have "fst (scanParents r ps (m, h)) \<le> b"
      by (rule Cons.IH[OF Cons.prems(1)]) (use Cons.prems(2) in auto)
    then show ?thesis using None by simp
  next
    case (Some v)
    then have "v \<le> b" using Cons.prems(2)[of p v] by simp
    then have "max m v \<le> b" using Cons.prems(1) by simp
    then have "fst (scanParents r ps (max m v, True)) \<le> b"
      by (rule Cons.IH) (use Cons.prems(2) in auto)
    then show ?thesis using Some by simp
  qed
qed

lemma scanParents_settled:
  "(\<And>p. p \<in> set ps \<Longrightarrow> r p = Some (int (d p))) \<Longrightarrow>
   scanParents r ps (m, h) =
     (if ps = [] then (m, h) else (max m (int (Max (d ` set ps))), True))"
proof (induction ps arbitrary: m h)
  case Nil
  then show ?case by simp
next
  case (Cons p ps)
  have rp: "r p = Some (int (d p))" using Cons.prems by simp
  show ?case
  proof (cases "ps = []")
    case True
    then show ?thesis using rp by simp
  next
    case False
    have "scanParents r ps (max m (int (d p)), True) =
            (max (max m (int (d p))) (int (Max (d ` set ps))), True)"
      using Cons.IH[of "max m (int (d p))" True] Cons.prems False by simp
    moreover have "Max (d ` set (p # ps)) = max (d p) (Max (d ` set ps))"
      using False by simp
    ultimately show ?thesis using rp by (simp add: max.assoc)
  qed
qed

lemma rankNode_eq:
  "rankNode n (r, ch) =
     (if parentIds n \<noteq> [] \<and> snd (scanParents r (parentIds n) (- 1, False)) \<and>
         (case r (node_id n) of Some v \<Rightarrow> v | None \<Rightarrow> - 1)
           < fst (scanParents r (parentIds n) (- 1, False)) + 1
      then (r(node_id n \<mapsto> fst (scanParents r (parentIds n) (- 1, False)) + 1), True)
      else (r, ch))"
  by (simp add: rankNode_def Let_def split: prod.splits)

lemma rankNode_frame: "c \<noteq> node_id n \<Longrightarrow> fst (rankNode n (r, ch)) c = r c"
  by (simp add: rankNode_eq)

lemma rankNode_new_le:
  assumes F: "depthFn ns d" and n: "n \<in> set ns" and B: "ranksBelow d r"
    and ne: "parentIds n \<noteq> []"
  shows "fst (scanParents r (parentIds n) (- 1, False)) + 1 \<le> int (d (node_id n))"
proof -
  have dn: "d (node_id n) = Suc (Max (d ` set (parentIds n)))"
    using F n ne by (simp add: depthFn_def)
  have "fst (scanParents r (parentIds n) (- 1, False)) \<le> int (Max (d ` set (parentIds n)))"
  proof (rule scanParents_le)
    show "- 1 \<le> int (Max (d ` set (parentIds n)))" by simp
  next
    fix p v assume "p \<in> set (parentIds n)" "r p = Some v"
    then have "v \<le> int (d p)" "d p \<le> Max (d ` set (parentIds n))"
      using B by (auto simp: ranksBelow_def)
    then show "v \<le> int (Max (d ` set (parentIds n)))" by simp
  qed
  then show ?thesis using dn by simp
qed

lemma rankNode_new_ge:
  "0 \<le> fst (scanParents r ps (- 1, False)) + 1"
proof -
  have "- 1 \<le> fst (scanParents r ps (m, h))" if "- 1 \<le> m" for m h
    using that by (induction ps arbitrary: m h) (auto split: option.splits)
  from this[of "- 1" False] show ?thesis by simp
qed

lemma rankNode_below:
  assumes F: "depthFn ns d" and n: "n \<in> set ns" and B: "ranksBelow d r"
  shows "ranksBelow d (fst (rankNode n (r, ch)))"
  using B rankNode_new_le[OF F n B] rankNode_new_ge[of r "parentIds n"]
  by (auto simp: rankNode_eq ranksBelow_def)

lemma rankNode_settled:
  assumes F: "depthFn ns d" and n: "n \<in> set ns" and B: "ranksBelow d r"
    and S: "ranksSettled d S k r"
  shows "ranksSettled d S k (fst (rankNode n (r, ch)))"
  unfolding ranksSettled_def
proof (intro ballI impI)
  fix m assume m: "m \<in> S" "d (node_id m) \<le> k"
  then have old: "r (node_id m) = Some (int (d (node_id m)))" using S by (simp add: ranksSettled_def)
  show "fst (rankNode n (r, ch)) (node_id m) = Some (int (d (node_id m)))"
  proof (cases "node_id m = node_id n")
    case False
    then show ?thesis using old by (simp add: rankNode_frame)
  next
    case True
    then show ?thesis
      using old rankNode_new_le[OF F n B] by (auto simp: rankNode_eq)
  qed
qed

lemma parent_present:
  "parentsPresent ns \<Longrightarrow> n \<in> set ns \<Longrightarrow> p \<in> set (parentIds n) \<Longrightarrow>
   \<exists>m\<in>set ns. node_id m = p"
  by (auto simp: parentsPresent_def)

lemma rankNode_progress:
  assumes F: "depthFn ns d" and P: "parentsPresent ns" and n: "n \<in> set ns"
    and B: "ranksBelow d r" and S: "ranksSettled d (set ns) k r" and dk: "d (node_id n) \<le> Suc k"
  shows "fst (rankNode n (r, ch)) (node_id n) = Some (int (d (node_id n)))"
proof (cases "parentIds n = []")
  case True
  then have "d (node_id n) = 0" using F n by (simp add: depthFn_def)
  then have "r (node_id n) = Some (int (d (node_id n)))" using S n by (simp add: ranksSettled_def)
  then show ?thesis using True by (simp add: rankNode_eq)
next
  case False
  have dn: "d (node_id n) = Suc (Max (d ` set (parentIds n)))"
    using F n False by (simp add: depthFn_def)
  have par: "r p = Some (int (d p))" if "p \<in> set (parentIds n)" for p
  proof -
    have "d p \<le> Max (d ` set (parentIds n))" using that by simp
    then have "d p \<le> k" using dn dk by simp
    moreover obtain m where "m \<in> set ns" "node_id m = p"
      using parent_present[OF P n \<open>p \<in> set (parentIds n)\<close>] by blast
    ultimately show ?thesis using S by (auto simp: ranksSettled_def)
  qed
  have sc: "scanParents r (parentIds n) (- 1, False) = (int (Max (d ` set (parentIds n))), True)"
    using scanParents_settled[of "parentIds n" r d "- 1" False] par False by simp
  show ?thesis
  proof (cases "r (node_id n)")
    case None
    then show ?thesis using False sc dn by (simp add: rankNode_eq)
  next
    case (Some v)
    then have "v \<le> int (d (node_id n))" using B by (simp add: ranksBelow_def)
    then show ?thesis using Some False sc dn by (auto simp: rankNode_eq)
  qed
qed

lemma ranksSettled_Un:
  "ranksSettled d (A \<union> B) k r \<longleftrightarrow> ranksSettled d A k r \<and> ranksSettled d B k r"
  by (auto simp: ranksSettled_def)

lemma ranksSettled_mono: "ranksSettled d S k r \<Longrightarrow> j \<le> k \<Longrightarrow> ranksSettled d S j r"
  by (auto simp: ranksSettled_def)

lemma rankPass_progress:
  assumes F: "depthFn ns d" and P: "parentsPresent ns"
  shows "set ms \<subseteq> set ns \<Longrightarrow> ranksBelow d r \<Longrightarrow> ranksSettled d (set ns) k r \<Longrightarrow>
         Done \<subseteq> set ns \<Longrightarrow> ranksSettled d Done (Suc k) r \<Longrightarrow>
         ranksBelow d (fst (rankPass ms (r, ch))) \<and>
         ranksSettled d (set ns) k (fst (rankPass ms (r, ch))) \<and>
         ranksSettled d (Done \<union> set ms) (Suc k) (fst (rankPass ms (r, ch)))"
proof (induction ms arbitrary: r ch Done)
  case Nil
  then show ?case by simp
next
  case (Cons n ms)
  obtain r1 ch1 where st: "rankNode n (r, ch) = (r1, ch1)" by (cases "rankNode n (r, ch)")
  then have r1: "r1 = fst (rankNode n (r, ch))" by simp
  have n: "n \<in> set ns" using Cons.prems(1) by simp
  have B1: "ranksBelow d r1" unfolding r1 by (rule rankNode_below[OF F n Cons.prems(2)])
  have S1: "ranksSettled d (set ns) k r1"
    unfolding r1 by (rule rankNode_settled[OF F n Cons.prems(2,3)])
  have D1: "ranksSettled d Done (Suc k) r1"
    unfolding r1 by (rule rankNode_settled[OF F n Cons.prems(2,5)])
  have N1: "ranksSettled d {n} (Suc k) r1"
    unfolding r1 using rankNode_progress[OF F P n Cons.prems(2,3)]
    by (simp add: ranksSettled_def)
  have D1': "ranksSettled d (insert n Done) (Suc k) r1"
    using D1 N1 ranksSettled_Un[of d "{n}" Done "Suc k" r1] by simp
  have "ranksBelow d (fst (rankPass ms (r1, ch1))) \<and>
        ranksSettled d (set ns) k (fst (rankPass ms (r1, ch1))) \<and>
        ranksSettled d (insert n Done \<union> set ms) (Suc k) (fst (rankPass ms (r1, ch1)))"
    by (rule Cons.IH) (use Cons.prems(1,4) n B1 S1 D1' in auto)
  then show ?case using st by simp
qed

lemma rankPass_full:
  assumes F: "depthFn ns d" and P: "parentsPresent ns"
    and B: "ranksBelow d r" and S: "ranksSettled d (set ns) k r"
  shows "ranksBelow d (fst (rankPass ns (r, ch))) \<and>
         ranksSettled d (set ns) (Suc k) (fst (rankPass ns (r, ch)))"
  using rankPass_progress[OF F P subset_refl B S, of "{}" ch]
  by (simp add: ranksSettled_def)

lemma rankPass_changed: "snd (rankPass ms (r, True)) = True"
proof (induction ms arbitrary: r)
  case Nil
  then show ?case by simp
next
  case (Cons n ms)
  have "snd (rankNode n (r, True)) = True" by (simp add: rankNode_eq)
  then obtain r1 where "rankNode n (r, True) = (r1, True)" by (cases "rankNode n (r, True)") auto
  then show ?case using Cons.IH[of r1] by simp
qed

lemma rankPass_unchanged:
  "rankPass ms (r, False) = (r', False) \<Longrightarrow>
   r' = r \<and> (\<forall>n\<in>set ms. rankNode n (r, False) = (r, False))"
proof (induction ms arbitrary: r)
  case Nil
  then show ?case by simp
next
  case (Cons n ms)
  obtain r1 ch1 where st: "rankNode n (r, False) = (r1, ch1)" by (cases "rankNode n (r, False)")
  have "ch1 = False"
  proof (rule ccontr)
    assume "ch1 \<noteq> False"
    then have "snd (rankPass (n # ms) (r, False)) = True"
      using st rankPass_changed[of ms r1] by simp
    then show False using Cons.prems by simp
  qed
  moreover from this have "r1 = r" using st by (auto simp: rankNode_eq split: if_splits)
  ultimately show ?case using Cons.IH[of r] Cons.prems st by simp
qed

lemma fixpoint_settled:
  assumes F: "depthFn ns d" and P: "parentsPresent ns" and B: "ranksBelow d r"
    and S: "ranksSettled d (set ns) 0 r"
    and X: "\<forall>n\<in>set ns. rankNode n (r, False) = (r, False)"
  shows "ranksSettled d (set ns) k r"
proof (induction k)
  case 0
  show ?case by (rule S)
next
  case (Suc k)
  show ?case
    unfolding ranksSettled_def
  proof (intro ballI impI)
    fix n assume n: "n \<in> set ns" "d (node_id n) \<le> Suc k"
    from rankNode_progress[OF F P n(1) B Suc n(2), of False] X n(1)
    show "r (node_id n) = Some (int (d (node_id n)))" by simp
  qed
qed

lemma settled_at_bound:
  assumes F: "depthFn ns d" and P: "parentsPresent ns"
    and S: "ranksSettled d (set ns) it r" and L: "length ns \<le> it"
  shows "ranksSettled d (set ns) k r"
  unfolding ranksSettled_def
proof (intro ballI impI)
  fix n assume n: "n \<in> set ns"
  have "d (node_id n) \<le> it" using depth_bound[OF F P n] L by simp
  then show "r (node_id n) = Some (int (d (node_id n)))"
    using S n by (simp add: ranksSettled_def)
qed

lemma rankLoop_settled:
  assumes F: "depthFn ns d" and P: "parentsPresent ns" and M: "length ns \<le> maxIterations"
  shows "ranksBelow d r \<Longrightarrow> ranksSettled d (set ns) it r \<Longrightarrow>
         (\<not> ch \<longrightarrow> (\<forall>k. ranksSettled d (set ns) k r)) \<Longrightarrow>
         ranksSettled d (set ns) k (fst (rankLoop ns maxIterations r ch it))"
proof (induction "maxIterations - it" arbitrary: r ch it)
  case 0
  then have e: "rankLoop ns maxIterations r ch it = (r, it)"
    by (subst rankLoop.simps) simp
  show ?case
  proof (cases ch)
    case False
    then show ?thesis using "0.prems"(3) e by simp
  next
    case True
    have "length ns \<le> it" using 0(1) M by simp
    from settled_at_bound[OF F P "0.prems"(2) this] show ?thesis using e by simp
  qed
next
  case (Suc m)
  show ?case
  proof (cases ch)
    case False
    then have "rankLoop ns maxIterations r ch it = (r, it)"
      by (subst rankLoop.simps) simp
    then show ?thesis using False Suc.prems(3) by simp
  next
    case True
    obtain r1 ch1 where st: "rankPass ns (r, False) = (r1, ch1)"
      by (cases "rankPass ns (r, False)")
    have lt: "it < maxIterations" using Suc.hyps(2) by simp
    have e: "rankLoop ns maxIterations r ch it = rankLoop ns maxIterations r1 ch1 (it + 1)"
      using True lt st by (subst rankLoop.simps) simp
    have r1: "r1 = fst (rankPass ns (r, False))" using st by simp
    have B1: "ranksBelow d r1" and S1: "ranksSettled d (set ns) (Suc it) r1"
      unfolding r1 using rankPass_full[OF F P Suc.prems(1,2), of False] by simp_all
    have C1: "\<not> ch1 \<longrightarrow> (\<forall>j. ranksSettled d (set ns) j r1)"
    proof (intro impI allI)
      fix j assume "\<not> ch1"
      then have "rankPass ns (r, False) = (r1, False)" using st by simp
      from rankPass_unchanged[OF this]
      have "r1 = r" and X: "\<forall>n\<in>set ns. rankNode n (r1, False) = (r1, False)" by simp_all
      have "ranksSettled d (set ns) 0 r1" by (rule ranksSettled_mono[OF S1]) simp
      from fixpoint_settled[OF F P B1 this X] show "ranksSettled d (set ns) j r1" .
    qed
    have "m = maxIterations - (it + 1)" using Suc.hyps(2) by simp
    from Suc.hyps(1)[OF this B1 _ C1] S1
    have "ranksSettled d (set ns) k (fst (rankLoop ns maxIterations r1 ch1 (it + 1)))" by simp
    then show ?thesis using e by simp
  qed
qed

lemma initRoots_eq:
  "initRoots ms r c =
     (if c \<in> node_id ` {n \<in> set ms. parentIds n = []} then Some 0 else r c)"
  by (induction ms arbitrary: r) auto

lemma fallback_keeps: "r c = Some v \<Longrightarrow> fallback ms i r c = Some v"
proof (induction ms arbitrary: i r)
  case Nil
  then show ?case by simp
next
  case (Cons a ms)
  let ?r = "if r (node_id a) = None then r(node_id a \<mapsto> int i) else r"
  have "?r c = Some v" using Cons.prems by auto
  then have "fallback ms (i + 1) ?r c = Some v" by (rule Cons.IH)
  then show ?case by simp
qed

lemma depthFn_cong: "set ms = set ns \<Longrightarrow> depthFn ms d = depthFn ns d"
  by (simp add: depthFn_def)

lemma parentsPresent_cong: "set ms = set ns \<Longrightarrow> parentsPresent ms = parentsPresent ns"
  by (simp add: parentsPresent_def)

lemma computeRanks_depth:
  assumes F: "depthFn ns d" and P: "parentsPresent ns" and n: "n \<in> set ns"
  shows "computeRanks ns (node_id n) = Some (int (d (node_id n)))"
proof -
  let ?sn = "sort_by cmpDate ns"
  let ?r0 = "initRoots ?sn Map.empty"
  have F': "depthFn ?sn d" using F depthFn_cong[of ?sn ns d] by simp
  have P': "parentsPresent ?sn" using P parentsPresent_cong[of ?sn ns] by simp
  have B0: "ranksBelow d ?r0" by (auto simp: ranksBelow_def initRoots_eq split: if_splits)
  have S0: "ranksSettled d (set ?sn) 0 ?r0"
    unfolding ranksSettled_def
  proof (intro ballI impI)
    fix m assume m: "m \<in> set ?sn" "d (node_id m) \<le> 0"
    then have "parentIds m = []" using F' by (auto simp: depthFn_def split: if_splits)
    then show "?r0 (node_id m) = Some (int (d (node_id m)))"
      using m by (auto simp: initRoots_eq)
  qed
  have "ranksSettled d (set ?sn) (d (node_id n))
          (fst (rankLoop ?sn (length ns + 2) ?r0 True 0))"
    by (rule rankLoop_settled[OF F' P' _ B0 S0]) simp_all
  then have "fst (rankPhase ns) (node_id n) = Some (int (d (node_id n)))"
    using n by (simp add: ranksSettled_def rankPhase_def Let_def)
  then show ?thesis by (simp add: computeRanks_def fallback_keeps)
qed

lemma acyclic_parentRel_dupRoot: "acyclic (parentRel dupRoot)"
proof -
  have "parentRel dupRoot = {(''B'', ''A'')}" by (simp add: parentRel_def dupRoot_def mkNode_def)
  moreover have "acyclic {(''B'', ''A'')}" by (simp add: acyclic_insert) (simp add: acyclic_def)
  ultimately show ?thesis by simp
qed

lemma acyclic_parentRel_diamond: "acyclic (parentRel diamond)"
proof (rule acyclicI_order)
  fix a b assume "(a, b) \<in> parentRel diamond"
  then show "(if b = ''A'' then 3 else if b = ''D'' then 1 else (2::nat))
           < (if a = ''A'' then 3 else if a = ''D'' then 1 else 2)"
    by (auto simp: parentRel_def diamond_def mkNode_def)
qed

lemma rankLoop_iterations:
  "it \<le> maxIterations \<Longrightarrow> snd (rankLoop ms maxIterations r ch it) \<le> maxIterations"
proof (induction "maxIterations - it" arbitrary: r ch it)
  case 0
  then show ?case by (subst rankLoop.simps) simp
next
  case (Suc m)
  obtain r1 ch1 where st: "rankPass ms (r, False) = (r1, ch1)"
    by (cases "rankPass ms (r, False)")
  have "snd (rankLoop ms maxIterations r1 ch1 (it + 1)) \<le> maxIterations"
    by (rule Suc.hyps(1)) (use Suc.hyps(2) in simp_all)
  then show ?case using st Suc.prems by (subst rankLoop.simps) simp
qed

lemma computeRanks_cyclePair:
  "rankPhase cyclePair = (Map.empty, 1) \<and> computeRanks cyclePair = [''A'' \<mapsto> 0, ''B'' \<mapsto> 1]"
  by (simp add: computeRanks_def rankPhase_def cyclePair_def mkNode_def sort_by_def cmpDate_def
      rankLoop.simps rankNode_def)

section \<open>Lemmas about nodes whose parent is absent\<close>

lemma rankNode_unranked:
  assumes U: "unranked n S r" and m: "m \<in> S"
    and p: "parentIds n = [p]" "p \<notin> node_id ` S"
    and u: "node_id m = node_id n \<longrightarrow> m = n"
  shows "unranked n S (fst (rankNode m (r, ch)))"
proof -
  have rp: "r p = None" using U p(2) by (auto simp: unranked_def)
  have d: "dom (fst (rankNode m (r, ch))) \<subseteq> node_id ` S"
    using U m by (auto simp: rankNode_eq unranked_def split: if_splits)
  have "fst (rankNode m (r, ch)) (node_id n) = None"
  proof (cases "node_id m = node_id n")
    case False
    then show ?thesis using U by (simp add: rankNode_frame unranked_def)
  next
    case True
    then have "m = n" using u by simp
    then show ?thesis using U p(1) rp by (simp add: rankNode_eq unranked_def)
  qed
  then show ?thesis using d by (simp add: unranked_def)
qed

lemma rankPass_unranked:
  assumes p: "parentIds n = [p]" "p \<notin> node_id ` S"
    and u: "\<forall>m\<in>S. node_id m = node_id n \<longrightarrow> m = n"
  shows "set ms \<subseteq> S \<Longrightarrow> unranked n S r \<Longrightarrow> unranked n S (fst (rankPass ms (r, ch)))"
proof (induction ms arbitrary: r ch)
  case Nil
  then show ?case by simp
next
  case (Cons m ms)
  obtain r1 ch1 where st: "rankNode m (r, ch) = (r1, ch1)" by (cases "rankNode m (r, ch)")
  have "m \<in> S" using Cons.prems(1) by simp
  then have "unranked n S (fst (rankNode m (r, ch)))"
    using rankNode_unranked[OF Cons.prems(2) _ p] u by blast
  then have "unranked n S r1" using st by simp
  then have "unranked n S (fst (rankPass ms (r1, ch1)))"
    by (rule Cons.IH[rotated]) (use Cons.prems(1) in simp)
  then show ?case using st by simp
qed

lemma rankLoop_unranked:
  assumes p: "parentIds n = [p]" "p \<notin> node_id ` S"
    and u: "\<forall>m\<in>S. node_id m = node_id n \<longrightarrow> m = n"
    and s: "set ms \<subseteq> S"
  shows "unranked n S r \<Longrightarrow> unranked n S (fst (rankLoop ms maxIterations r ch it))"
proof (induction "maxIterations - it" arbitrary: r ch it)
  case 0
  then show ?case by (subst rankLoop.simps) simp
next
  case (Suc k)
  obtain r1 ch1 where st: "rankPass ms (r, False) = (r1, ch1)"
    by (cases "rankPass ms (r, False)")
  have "unranked n S (fst (rankPass ms (r, False)))"
    by (rule rankPass_unranked[OF p u s Suc.prems])
  then have "unranked n S r1" using st by simp
  then have "unranked n S (fst (rankLoop ms maxIterations r1 ch1 (it + 1)))"
    by (rule Suc.hyps(1)[rotated]) (use Suc.hyps(2) in simp)
  then show ?case using st Suc.prems by (subst rankLoop.simps) simp
qed

lemma fallback_append:
  "fallback (as @ bs) i r = fallback bs (i + length as) (fallback as i r)"
  by (induction as arbitrary: i r) auto

lemma fallback_index:
  assumes "r (node_id n) = None" "node_id n \<notin> node_id ` set pre"
  shows "fallback (pre @ n # post) 0 r (node_id n) = Some (int (length pre))"
proof -
  have "node_id n \<notin> dom (fallback pre 0 r)"
    using assms by (auto simp: fallback_dom)
  then have "fallback pre 0 r (node_id n) = None" by auto
  then have "fallback (n # post) (length pre) (fallback pre 0 r) (node_id n) = Some (int (length pre))"
    by (simp add: fallback_keeps)
  then show ?thesis by (simp add: fallback_append)
qed

lemma unique_id:
  assumes "node_id n \<notin> set (map node_id (pre @ post))" "m \<in> set (pre @ n # post)"
    and "node_id m = node_id n"
  shows "m = n"
proof (rule ccontr)
  assume "m \<noteq> n"
  then have "m \<in> set (pre @ post)" using assms(2) by auto
  then have "node_id m \<in> node_id ` set (pre @ post)" by (rule imageI)
  then show False using assms(1,3) by (simp add: image_Un)
qed

lemma dangling_rank:
  assumes s: "sort_by cmpDate ns = pre @ n # post"
    and p: "parentIds n = [p]" "p \<notin> set (map node_id ns)"
    and u: "node_id n \<notin> set (map node_id (pre @ post))"
  shows "computeRanks ns (node_id n) = Some (int (length pre))"
proof -
  let ?sn = "sort_by cmpDate ns"
  have S: "set ?sn = set ns" by simp
  have uq: "\<forall>m\<in>set ?sn. node_id m = node_id n \<longrightarrow> m = n"
    unfolding s using unique_id[OF u] by blast
  have p': "p \<notin> node_id ` set ?sn" using p(2) by simp
  have "unranked n (set ?sn) (initRoots ?sn Map.empty)"
    using p(1) uq by (auto simp: unranked_def initRoots_eq split: if_splits)
  then have "unranked n (set ?sn) (fst (rankLoop ?sn (length ns + 2) (initRoots ?sn Map.empty) True 0))"
    by (rule rankLoop_unranked[OF p(1) p' uq subset_refl])
  then have "fst (rankPhase ns) (node_id n) = None"
    by (simp add: rankPhase_def Let_def unranked_def)
  then have "fallback (pre @ n # post) 0 (fst (rankPhase ns)) (node_id n) = Some (int (length pre))"
    by (rule fallback_index) (use u in auto)
  then show ?thesis by (simp add: computeRanks_def s)
qed

lemma nodeEdges_dangling:
  "(\<And>q. q \<in> set ps \<Longrightarrow> map_get nm q = None) \<Longrightarrow> nodeEdges nm rn ps = []"
  by (induction ps) auto

lemma computeRanks_danglingPair: "computeRanks danglingPair = [''A'' \<mapsto> 0, ''B'' \<mapsto> 1]"
  by (simp add: computeRanks_def rankPhase_def danglingPair_def mkNode_def sort_by_def cmpDate_def
      rankLoop.simps rankNode_def)

section \<open>Lemmas about the status field\<close>

lemma eraseStatus_fields [simp]:
  "node_id (eraseStatus n) = node_id n"
  "parentIds (eraseStatus n) = parentIds n"
  "date (eraseStatus n) = date n"
  by (simp_all add: eraseStatus_def)

lemma eraseStatus_eqD:
  assumes "eraseStatus a = eraseStatus b"
  shows "node_id a = node_id b" "parentIds a = parentIds b" "date a = date b"
  using arg_cong[OF assms, of node_id] arg_cong[OF assms, of parentIds]
    arg_cong[OF assms, of date]
  by simp_all

lemma eraseStyle_fields [simp]:
  "node_id (eraseStyle rn) = node_id rn"
  "lane (eraseStyle rn) = lane rn"
  "x (eraseStyle rn) = x rn"
  "y (eraseStyle rn) = y rn"
  by (simp_all add: eraseStyle_def)

lemma eraseStyle_render:
  "eraseStyle (render n r ori l) = (render (eraseStatus n) r ori l)\<lparr>color := None\<rparr>"
  by (simp add: eraseStyle_def eraseStatus_def render_def WorkflowNode.extend_def
      RenderedNode.fields_def)

lemma insert_by_map:
  assumes "\<And>a b. cmp (g a) (g b) = cmp a b"
  shows "insert_by cmp (g a) (map g bs) = map g (insert_by cmp a bs)"
  by (induction bs) (simp_all add: assms)

lemma sort_by_map:
  assumes "\<And>a b. cmp (g a) (g b) = cmp a b"
  shows "sort_by cmp (map g as) = map g (sort_by cmp as)"
proof (induction as)
  case Nil
  then show ?case by (simp add: sort_by_def)
next
  case (Cons a as)
  have "sort_by cmp (map g (a # as)) = insert_by cmp (g a) (sort_by cmp (map g as))"
    by (simp add: sort_by_def)
  also have "\<dots> = insert_by cmp (g a) (map g (sort_by cmp as))" by (simp only: Cons.IH)
  also have "\<dots> = map g (insert_by cmp a (sort_by cmp as))"
    by (rule insert_by_map) (rule assms)
  finally show ?case by (simp add: sort_by_def)
qed

lemma initRoots_erase: "initRoots (map eraseStatus ms) r = initRoots ms r"
  by (induction ms arbitrary: r) simp_all

lemma rankNode_erase: "rankNode (eraseStatus n) st = rankNode n st"
  by (cases st) (simp add: rankNode_eq)

lemma rankPass_erase: "rankPass (map eraseStatus ms) st = rankPass ms st"
  by (induction ms arbitrary: st) (simp_all add: rankNode_erase)

lemma rankLoop_erase:
  "rankLoop (map eraseStatus ms) maxIterations r ch it = rankLoop ms maxIterations r ch it"
proof (induction "maxIterations - it" arbitrary: r ch it)
  case 0
  then show ?case by (simp add: rankLoop.simps)
next
  case (Suc k)
  obtain r1 ch1 where st: "rankPass ms (r, False) = (r1, ch1)"
    by (cases "rankPass ms (r, False)")
  have "rankLoop (map eraseStatus ms) maxIterations r1 ch1 (it + 1) =
        rankLoop ms maxIterations r1 ch1 (it + 1)"
    by (rule Suc.hyps(1)) (use Suc.hyps(2) in simp)
  then show ?case
    using st by (simp add: rankLoop.simps[of _ _ r ch it] rankPass_erase)
qed

lemma fallback_erase: "fallback (map eraseStatus ms) i r = fallback ms i r"
  by (induction ms arbitrary: i r) simp_all

lemma sort_date_erase:
  "sort_by cmpDate (map eraseStatus ns) = map eraseStatus (sort_by cmpDate ns)"
  by (rule sort_by_map) (simp add: cmpDate_def)

lemma computeRanks_erase: "computeRanks (map eraseStatus ns) = computeRanks ns"
  by (simp add: computeRanks_def rankPhase_def Let_def sort_date_erase initRoots_erase
      rankLoop_erase fallback_erase)

lemma layoutNodes_erase: "layoutNodes (map eraseStatus ns) = map eraseStatus (layoutNodes ns)"
proof -
  have "sort_by (cmpRank (computeRanks ns)) (map eraseStatus (sort_by cmpDate ns)) =
        map eraseStatus (sort_by (cmpRank (computeRanks ns)) (sort_by cmpDate ns))"
    by (rule sort_by_map) (simp add: cmpRank_def Let_def)
  then show ?thesis by (simp add: layoutNodes_def computeRanks_erase sort_date_erase)
qed

lemma map_get_eraseMap: "map_get (eraseMap nm) k = map_option eraseStyle (map_get nm k)"
  by (induction nm) (auto simp: map_get_def eraseMap_def)

lemma eraseMap_map_set: "eraseMap (map_set nm k v) = map_set (eraseMap nm) k (eraseStyle v)"
  by (induction nm) (auto simp: eraseMap_def)

lemma inheritLane_erase:
  "inheritLane (eraseMap nm) a (eraseStatus n) = inheritLane nm a n"
  by (cases "parentIds n")
     (auto simp: inheritLane_def map_get_eraseMap split: option.splits)

lemma layoutNode_as_map:
  "layoutNode ranks ori (nm, a) n =
     map_option (\<lambda>l. (map_set nm (node_id n) (render n (ranks (node_id n)) ori l),
                      a(l \<mapsto> node_id n)))
       (if inheritLane nm a n = - 1 then findLane a 0 else Some (inheritLane nm a n))"
  by (auto simp: layoutNode_def Let_def split: option.splits)

lemma layoutNode_rel:
  assumes M: "eraseMap nm1 = eraseMap nm2" and N: "eraseStatus n1 = eraseStatus n2"
  shows "map_option eraseState (layoutNode ranks ori (nm1, a) n1) =
         map_option eraseState (layoutNode ranks ori (nm2, a) n2)"
proof -
  have i: "inheritLane nm1 a n1 = inheritLane nm2 a n2"
    using inheritLane_erase[of nm1 a n1] inheritLane_erase[of nm2 a n2] M N by simp
  have k: "node_id n1 = node_id n2" using eraseStatus_eqD(1)[OF N] .
  have r: "eraseStyle (render n1 r ori l) = eraseStyle (render n2 r ori l)" for r l
    by (simp add: eraseStyle_render N)
  show ?thesis
    unfolding layoutNode_as_map option.map_comp
    by (simp add: comp_def eraseState_def eraseMap_map_set r M i k)
qed

lemma layoutPass_rel:
  "map eraseStatus ms1 = map eraseStatus ms2 \<Longrightarrow> eraseMap nm1 = eraseMap nm2 \<Longrightarrow>
   map_option eraseState (layoutPass ranks ori ms1 (nm1, a)) =
   map_option eraseState (layoutPass ranks ori ms2 (nm2, a))"
proof (induction ms1 arbitrary: ms2 nm1 nm2 a)
  case Nil
  then show ?case by (simp add: eraseState_def)
next
  case (Cons n1 ms1)
  then obtain n2 ms2' where ms2: "ms2 = n2 # ms2'" and N: "eraseStatus n1 = eraseStatus n2"
    and R: "map eraseStatus ms1 = map eraseStatus ms2'"
    by (cases ms2) auto
  note step = layoutNode_rel[OF Cons.prems(2) N, of ranks ori a]
  show ?case
  proof (cases "layoutNode ranks ori (nm1, a) n1")
    case None
    then have "layoutNode ranks ori (nm2, a) n2 = None" using step by simp
    then show ?thesis using None ms2 by simp
  next
    case (Some st1)
    then obtain st2 where s2: "layoutNode ranks ori (nm2, a) n2 = Some st2"
      and e: "eraseState st1 = eraseState st2"
      using step by (cases "layoutNode ranks ori (nm2, a) n2") auto
    obtain nm1' a1 where st1: "st1 = (nm1', a1)" by (cases st1)
    obtain nm2' a2 where st2: "st2 = (nm2', a2)" by (cases st2)
    have eq: "eraseMap nm1' = eraseMap nm2'" "a2 = a1"
      using e st1 st2 by (simp_all add: eraseState_def)
    have "map_option eraseState (layoutPass ranks ori ms1 (nm1', a1)) =
          map_option eraseState (layoutPass ranks ori ms2' (nm2', a1))"
      by (rule Cons.IH[OF R eq(1)])
    then show ?thesis using Some s2 st1 st2 eq(2) ms2 by simp
  qed
qed

lemma map_values_eraseMap: "map_values (eraseMap nm) = map eraseStyle (map_values nm)"
  by (simp add: map_values_def eraseMap_def)

lemma coords_eraseStyle:
  "map x (map eraseStyle rns) = map x rns" "map y (map eraseStyle rns) = map y rns"
  by simp_all

section \<open>The rank invariant\<close>

text \<open>
  C1, as stated, fails when two nodes share an id: the rank map is keyed by id, so a node
  without parents takes the rank its namesake gets from a parent. Here every parent id is
  present and the parent relation is acyclic, yet the first node, which has no parents,
  has rank 1.
\<close>

theorem duplicate_id_rank_counterexample:
  "parentsPresent dupRoot \<and> acyclic (parentRel dupRoot) \<and> parentIds (dupRoot ! 0) = [] \<and>
   computeRanks dupRoot (node_id (dupRoot ! 0)) = Some 1"
  using acyclic_parentRel_dupRoot
  by (simp add: parentsPresent_def dupRoot_def mkNode_def
      computeRanks_def rankPhase_def sort_by_def cmpDate_def rankLoop.simps rankNode_def)

text \<open>
  C1, amended. If the node ids are pairwise distinct, every listed parent id is the id of
  a node of the list and the parent relation is acyclic, then every node without parents
  has rank 0 and every node with parents has rank one more than the greatest rank among
  its parents (all of which have a rank).
\<close>

theorem rank_is_one_more_than_deepest_parent:
  assumes "distinct (map node_id ns)" and "parentsPresent ns" and "acyclic (parentRel ns)"
    and "n \<in> set ns"
  shows "(parentIds n = [] \<longrightarrow> computeRanks ns (node_id n) = Some 0) \<and>
         (parentIds n \<noteq> [] \<longrightarrow>
            (\<exists>f. (\<forall>p\<in>set (parentIds n). computeRanks ns p = Some (f p)) \<and>
                 computeRanks ns (node_id n) = Some (1 + Max (f ` set (parentIds n)))))"
proof -
  obtain d where F: "depthFn ns d" using depthFn_exists[OF assms(1,3)] by blast
  note R = computeRanks_depth[OF F assms(2)]
  have dn: "d (node_id n) = (if parentIds n = [] then 0 else Suc (Max (d ` set (parentIds n))))"
    using F assms(4) by (simp add: depthFn_def)
  have root: "parentIds n = [] \<longrightarrow> computeRanks ns (node_id n) = Some 0"
    using R[OF assms(4)] dn by simp
  have inner: "\<exists>f. (\<forall>p\<in>set (parentIds n). computeRanks ns p = Some (f p)) \<and>
                 computeRanks ns (node_id n) = Some (1 + Max (f ` set (parentIds n)))"
    if ne: "parentIds n \<noteq> []"
  proof -
    let ?f = "\<lambda>p. int (d p)"
    have par: "\<forall>p\<in>set (parentIds n). computeRanks ns p = Some (?f p)"
    proof
      fix p assume p: "p \<in> set (parentIds n)"
      from parent_present[OF assms(2,4) p] obtain m where "m \<in> set ns" "node_id m = p" by blast
      then show "computeRanks ns p = Some (?f p)" using R[of m] by simp
    qed
    have "int (Max (d ` set (parentIds n))) = Max (int ` d ` set (parentIds n))"
      by (rule mono_Max_commute) (use ne in \<open>auto intro: monoI\<close>)
    then have "int (d (node_id n)) = 1 + Max (?f ` set (parentIds n))"
      using dn ne by (simp add: image_image)
    then have "computeRanks ns (node_id n) = Some (1 + Max (?f ` set (parentIds n)))"
      using R[OF assms(4)] by simp
    with par show ?thesis by (intro exI[of _ ?f] conjI)
  qed
  show ?thesis using root inner by blast
qed

theorem rank_is_one_more_than_deepest_parent_witness:
  "distinct (map node_id diamond) \<and> parentsPresent diamond \<and> acyclic (parentRel diamond) \<and>
   computeRanks diamond ''A'' = Some 0 \<and>
   (\<exists>f. computeRanks diamond ''B'' = Some (f ''B'') \<and> computeRanks diamond ''C'' = Some (f ''C'') \<and>
        computeRanks diamond ''D'' = Some (1 + Max {f ''B'', f ''C''}))"
proof -
  have D: "distinct (map node_id diamond)" by (simp add: diamond_def mkNode_def)
  have P: "parentsPresent diamond" by (simp add: parentsPresent_def diamond_def mkNode_def)
  note A = acyclic_parentRel_diamond
  have a: "mkNode ''A'' 0 Active [] \<in> set diamond"
    and b: "mkNode ''D'' 3 Active [''B'', ''C''] \<in> set diamond"
    by (simp_all add: diamond_def)
  have "computeRanks diamond ''A'' = Some 0"
    using rank_is_one_more_than_deepest_parent[OF D P A a] by (simp add: mkNode_def)
  moreover have "\<exists>f. computeRanks diamond ''B'' = Some (f ''B'') \<and>
        computeRanks diamond ''C'' = Some (f ''C'') \<and>
        computeRanks diamond ''D'' = Some (1 + Max {f ''B'', f ''C''})"
    using rank_is_one_more_than_deepest_parent[OF D P A b] by (simp add: mkNode_def)
  ultimately show ?thesis using D P A by blast
qed

section \<open>The rank loop is bounded and the fallback ranks every node\<close>

text \<open>
  C2. For every input list the rank loop makes at most \<open>length ns + 2\<close> passes, and after
  the fallback every node has a rank. \<open>rankLoop\<close>, \<open>rankPass\<close> and \<open>fallback\<close> are total
  functions without an error result: the loop's termination is proved where it is defined,
  and the source has no statement that throws in this phase. The example is the two-node
  mutual-parent cycle: one pass, no propagated rank, both ranks from the fallback.
\<close>

theorem rank_loop_bounded_and_total:
  "snd (rankPhase ns) \<le> length ns + 2 \<and>
   (\<forall>n\<in>set ns. \<exists>r. computeRanks ns (node_id n) = Some r)"
proof
  show "snd (rankPhase ns) \<le> length ns + 2"
    unfolding rankPhase_def Let_def by (rule rankLoop_iterations) simp
  show "\<forall>n\<in>set ns. \<exists>r. computeRanks ns (node_id n) = Some r"
    using computeRanks_total by blast
qed

theorem rank_loop_bounded_and_total_witness:
  "snd (rankPhase cyclePair) \<le> 4 \<and> snd (rankPhase cyclePair) = 1 \<and>
   (\<exists>r. computeRanks cyclePair ''A'' = Some r) \<and> (\<exists>r. computeRanks cyclePair ''B'' = Some r) \<and>
   computeRanks cyclePair = [''A'' \<mapsto> 0, ''B'' \<mapsto> 1]"
  using rank_loop_bounded_and_total[of cyclePair] computeRanks_cyclePair
  by (simp add: cyclePair_def mkNode_def)

section \<open>Lane inheritance\<close>

text \<open>
  C3. At any moment of the lane pass (after any list \<open>pre\<close> of nodes has been processed
  from the empty maps): if the first listed parent of the next node \<open>c\<close> is in
  \<open>nodeMap\<close> as \<open>p\<close>, and \<open>laneAllocation\<close> still names \<open>p\<close> as the claimant of
  \<open>p\<close>'s lane, then the step for \<open>c\<close> returns, stores \<open>c\<close> with the lane of \<open>p\<close>, and
  records \<open>c\<close> as the new claimant of that lane.
\<close>

theorem lane_inherited_from_first_parent:
  assumes "layoutPass ranks ori pre ([], Map.empty) = Some (nodeMap, laneAlloc)"
    and "parentIds c = firstParentId # others"
    and "map_get nodeMap firstParentId = Some p"
    and "laneAlloc (lane p) = Some (node_id p)"
  shows "\<exists>nodeMap' laneAlloc' rc.
           layoutNode ranks ori (nodeMap, laneAlloc) c = Some (nodeMap', laneAlloc') \<and>
           map_get nodeMap' (node_id c) = Some rc \<and> lane rc = lane p \<and>
           laneAlloc' (lane p) = Some (node_id c)"
proof -
  obtain k where k: "packed laneAlloc k"
    using layoutPass_init[OF assms(1)] by blast
  have "lane p \<in> dom laneAlloc" using assms(4) by auto
  then have "lane p \<noteq> - 1" using k by (auto simp: packed_def)
  then have "chosenLane nodeMap laneAlloc k c = lane p"
    using assms(2-4) by (simp add: chosenLane_def inheritLane_def)
  then show ?thesis
    using layoutNode_packed[OF k, of ranks ori nodeMap c] by simp
qed

theorem lane_inherited_from_first_parent_witness:
  "layoutPass (computeRanks diamond) Vertical [mkNode ''A'' 0 Active []] ([], Map.empty) =
     Some ([(''A'', rnode ''A'' 0 [] 50 50 0 ''#3b82f6'')], [0 \<mapsto> ''A'']) \<and>
   (\<exists>nodeMap' laneAlloc' rc.
      layoutNode (computeRanks diamond) Vertical
        ([(''A'', rnode ''A'' 0 [] 50 50 0 ''#3b82f6'')], [0 \<mapsto> ''A''])
        (mkNode ''B'' 1 Active [''A'']) = Some (nodeMap', laneAlloc') \<and>
      map_get nodeMap' ''B'' = Some rc \<and> lane rc = 0 \<and> laneAlloc' 0 = Some ''B'')"
proof -
  let ?A = "rnode ''A'' 0 [] 50 50 0 ''#3b82f6''"
  note h1 = layoutPass_diamond_A
  have h2: "parentIds (mkNode ''B'' 1 Active [''A'']) = ''A'' # []" by (simp add: mkNode_def)
  have h3: "map_get [(''A'', ?A)] ''A'' = Some ?A" by (simp add: map_get_def)
  have h4: "[0 \<mapsto> ''A''] (lane ?A) = Some (node_id ?A)" by (simp add: rnode_def)
  have r: "lane ?A = 0" "node_id (mkNode ''B'' 1 Active [''A'']) = ''B''"
    by (simp_all add: mkNode_def rnode_def)
  show ?thesis
    using h1 lane_inherited_from_first_parent[OF h1 h2 h3 h4, unfolded r] by blast
qed

section \<open>Fallback allocation\<close>

text \<open>
  C4. At any moment of the lane pass: if inheritance from the first parent does not apply
  to the next node \<open>c\<close> (it has no parent, or its first parent is not in \<open>nodeMap\<close>, or
  that parent is no longer the claimant of its lane), the step returns and gives \<open>c\<close> the
  lane \<open>l\<close> that is the smallest index from 0 upward with no claimant, and records
  \<open>c\<close> as the claimant of \<open>l\<close>. The claimed lanes are \<open>0, ..., l - 1\<close> before and
  \<open>0, ..., l\<close> after: no index is opened while a smaller one is free.
\<close>

theorem fallback_takes_first_free_lane:
  assumes "layoutPass ranks ori pre ([], Map.empty) = Some (nodeMap, laneAlloc)"
    and "\<not> (\<exists>firstParentId others p. parentIds c = firstParentId # others \<and>
              map_get nodeMap firstParentId = Some p \<and>
              laneAlloc (lane p) = Some (node_id p))"
  shows "\<exists>l nodeMap' laneAlloc' rc.
           layoutNode ranks ori (nodeMap, laneAlloc) c = Some (nodeMap', laneAlloc') \<and>
           map_get nodeMap' (node_id c) = Some rc \<and> lane rc = l \<and>
           0 \<le> l \<and> laneAlloc l = None \<and> (\<forall>j. 0 \<le> j \<and> j < l \<longrightarrow> laneAlloc j \<noteq> None) \<and>
           laneAlloc' = laneAlloc(l \<mapsto> node_id c) \<and>
           dom laneAlloc = {0..<l} \<and> dom laneAlloc' = {0..l}"
proof -
  obtain k where k: "packed laneAlloc k"
    using layoutPass_init[OF assms(1)] by blast
  have "inheritLane nodeMap laneAlloc c = - 1"
    using assms(2) by (auto simp: inheritLane_def split: list.splits option.splits)
  then have l: "chosenLane nodeMap laneAlloc k c = k" by (simp add: chosenLane_def)
  have d: "dom laneAlloc = {0..<k}" "0 \<le> k" using k by (simp_all add: packed_def)
  have "laneAlloc k = None" using d by (auto simp: domIff)
  moreover have "\<forall>j. 0 \<le> j \<and> j < k \<longrightarrow> laneAlloc j \<noteq> None"
    using d by (auto simp: domIff set_eq_iff)
  moreover have "dom (laneAlloc(k \<mapsto> node_id c)) = {0..k}" using d by auto
  ultimately show ?thesis
    using layoutNode_packed[OF k, of ranks ori nodeMap c] l d by simp
qed


theorem fallback_takes_first_free_lane_witness:
  "layoutPass (computeRanks diamond) Vertical
     [mkNode ''A'' 0 Active [], mkNode ''B'' 1 Active [''A'']] ([], Map.empty) =
     Some ([(''A'', rnode ''A'' 0 [] 50 50 0 ''#3b82f6''),
            (''B'', rnode ''B'' 1 [''A''] 50 250 0 ''#3b82f6'')], [0 \<mapsto> ''B'']) \<and>
   (\<exists>l nodeMap' laneAlloc' rc.
      layoutNode (computeRanks diamond) Vertical
        ([(''A'', rnode ''A'' 0 [] 50 50 0 ''#3b82f6''),
          (''B'', rnode ''B'' 1 [''A''] 50 250 0 ''#3b82f6'')], [0 \<mapsto> ''B''])
        (mkNode ''C'' 2 Active [''A'']) = Some (nodeMap', laneAlloc') \<and>
      map_get nodeMap' ''C'' = Some rc \<and> lane rc = l \<and> l = 1 \<and>
      laneAlloc' = [0 \<mapsto> ''B'', 1 \<mapsto> ''C''])"
proof -
  let ?C = "mkNode ''C'' 2 Active [''A'']"
  let ?nm = "[(''A'', rnode ''A'' 0 [] 50 50 0 ''#3b82f6''),
              (''B'', rnode ''B'' 1 [''A''] 50 250 0 ''#3b82f6'')]"
  note h1 = layoutPass_diamond_AB
  have h2: "\<not> (\<exists>firstParentId others p. parentIds ?C = firstParentId # others \<and>
              map_get ?nm firstParentId = Some p \<and>
              [0 \<mapsto> ''B''] (lane p) = Some (node_id p))"
    by (auto simp: mkNode_def map_get_def rnode_def)
  have r: "node_id ?C = ''C''" by (simp add: mkNode_def)
  from fallback_takes_first_free_lane[OF h1 h2, unfolded r]
  obtain l nodeMap' laneAlloc' rc where
    c: "layoutNode (computeRanks diamond) Vertical (?nm, [0 \<mapsto> ''B'']) ?C = Some (nodeMap', laneAlloc')"
       "map_get nodeMap' ''C'' = Some rc" "lane rc = l" "laneAlloc' = [0 \<mapsto> ''B'', l \<mapsto> ''C'']"
       "dom [0 \<mapsto> ''B''] = {0..<l}"
    by blast
  have "{0..<l} = {0}" using c(5) by simp
  then have "0 \<in> {0..<l}" "1 \<notin> {0..<l}" by simp_all
  then have "l = 1" by simp
  then show ?thesis using h1 c by blast
qed

section \<open>A node whose only parent is absent\<close>

text \<open>
  C5, as stated, fails: a node whose only parent id is not in the list gets no rank from
  the loop, and the fallback then gives it its index in the date order, which is 0 only
  for the first node. Here the second node has the absent parent \<open>Z\<close> and rank 1.
\<close>

theorem dangling_parent_rank_counterexample:
  "parentIds (danglingPair ! 1) = [''Z''] \<and> ''Z'' \<notin> set (map node_id danglingPair) \<and>
   computeRanks danglingPair (node_id (danglingPair ! 1)) = Some 1"
  by (simp add: computeRanks_danglingPair) (simp add: danglingPair_def mkNode_def)

text \<open>
  C5, amended. Let \<open>n\<close> be a node whose only parent id is not the id of any node of the
  list and whose own id no other node of the list has. Then its rank is its index in the
  date-sorted list (the number of nodes sorted before it), and the rendered node stored
  for it pushes no edge.
\<close>

theorem dangling_parent_rank_and_edges:
  assumes "sort_by cmpDate ns = pre @ n # post"
    and "parentIds n = [p]" and "p \<notin> set (map node_id ns)"
    and "node_id n \<notin> set (map node_id (pre @ post))"
  shows "computeRanks ns (node_id n) = Some (int (length pre)) \<and>
         (\<exists>res rn nodeMap laneAlloc.
            calculateLayout w h ns ori = Some res \<and>
            layoutPass (computeRanks ns) ori (layoutNodes ns) ([], Map.empty) =
              Some (nodeMap, laneAlloc) \<and>
            nodes res = map_values nodeMap \<and> edges res = renderEdges nodeMap \<and>
            map_get nodeMap (node_id n) = Some rn \<and> rn \<in> set (nodes res) \<and>
            rn = render n (Some (int (length pre))) ori (lane rn) \<and>
            nodeEdges nodeMap rn (parentIds rn) = [])"
proof -
  note R = dangling_rank[OF assms]
  obtain res where res: "calculateLayout w h ns ori = Some res"
    using calculateLayout_total by blast
  from calculateLayout_SomeD[OF res] obtain nm a where
    pass: "layoutPass (computeRanks ns) ori (layoutNodes ns) ([], Map.empty) = Some (nm, a)" and
    nd: "nodes res = map_values nm" and ed: "edges res = renderEdges nm"
    by blast
  note E = layoutPass_entries[OF pass]
  have sn: "set ns = set (pre @ n # post)" using assms(1) set_sort_by[of cmpDate ns] by simp
  have keys: "set (map fst nm) = node_id ` set ns" using E by simp
  have dist: "distinct (map fst nm)" using E by simp
  have "node_id n \<in> set (map fst nm)" using keys sn by simp
  then obtain rn where rn: "(node_id n, rn) \<in> set nm" by auto
  then have "fromNodes (computeRanks ns) ori (set (layoutNodes ns)) (node_id n, rn)"
    using E by auto
  then obtain m where m: "m \<in> set ns" "node_id n = node_id m"
    "rn = render m (computeRanks ns (node_id m)) ori (lane rn)"
    by (auto simp: fromNodes_def)
  have "m \<in> set (pre @ n # post)" using m(1) sn by simp
  from unique_id[OF assms(4) this m(2)[symmetric]] have "m = n" .
  then have ren: "rn = render n (Some (int (length pre))) ori (lane rn)" using m(3) R by simp
  have get: "map_get nm (node_id n) = Some rn"
    using rn dist by (simp add: map_get_def)
  have mem: "rn \<in> set (nodes res)" using rn nd by (force simp: map_values_def)
  have pid: "parentIds rn = [p]" by (subst ren) (simp add: assms(2))
  have "map_get nm p = None"
    using keys assms(3) by (simp add: map_get_def map_of_eq_None_iff)
  then have "nodeEdges nm rn (parentIds rn) = []" using pid by simp
  then show ?thesis using R res pass nd ed get mem ren by blast
qed

theorem dangling_parent_rank_and_edges_witness:
  "sort_by cmpDate danglingPair = [mkNode ''A'' 0 Active []] @ mkNode ''B'' 1 Active [''Z''] # [] \<and>
   computeRanks danglingPair ''B'' = Some 1 \<and>
   (\<exists>res rn nodeMap laneAlloc.
      calculateLayout 800 600 danglingPair Vertical = Some res \<and>
      layoutPass (computeRanks danglingPair) Vertical (layoutNodes danglingPair) ([], Map.empty) =
        Some (nodeMap, laneAlloc) \<and>
      nodes res = map_values nodeMap \<and> edges res = renderEdges nodeMap \<and>
      map_get nodeMap ''B'' = Some rn \<and> rn \<in> set (nodes res) \<and>
      rn = render (mkNode ''B'' 1 Active [''Z'']) (Some 1) Vertical (lane rn) \<and>
      nodeEdges nodeMap rn (parentIds rn) = [])"
proof -
  let ?A = "mkNode ''A'' 0 Active []"
  let ?B = "mkNode ''B'' 1 Active [''Z'']"
  have h1: "sort_by cmpDate danglingPair = [?A] @ ?B # []"
    by (simp add: danglingPair_def sort_by_def cmpDate_def mkNode_def)
  have h2: "parentIds ?B = [''Z'']" by (simp add: mkNode_def)
  have h3: "''Z'' \<notin> set (map node_id danglingPair)" by (simp add: danglingPair_def mkNode_def)
  have h4: "node_id ?B \<notin> set (map node_id ([?A] @ []))" by (simp add: mkNode_def)
  have r: "node_id ?B = ''B''" "int (length [?A]) = 1" by (simp_all add: mkNode_def)
  show ?thesis
    using h1 dangling_parent_rank_and_edges[OF h1 h2 h3 h4, of 800 600 Vertical, unfolded r]
    by blast
qed

section \<open>One rendered node per node id\<close>

text \<open>
  C6, as stated, fails: \<open>nodeMap\<close> is keyed by id, so two input nodes with the same id
  leave one rendered node.
\<close>

theorem duplicate_ids_counterexample:
  "map_option (length \<circ> nodes) (calculateLayout 800 600 twins Vertical) = Some 1 \<and>
   length twins = 2"
  by (simp add: calculateLayout_twins) (simp add: twins_def)

text \<open>
  C6, amended. For every input list and orientation, \<open>calculateLayout\<close> returns, with
  exactly one rendered node for each distinct id of the input, hence one for each input
  node when the ids are pairwise distinct. Each rendered node is the rendering of an input
  node with a rank of the final rank map, a lane that is not negative, finite coordinates
  and a colour.
\<close>

theorem rendered_per_distinct_id:
  "\<exists>res. calculateLayout w h ns ori = Some res \<and>
     distinct (map node_id (nodes res)) \<and>
     set (map node_id (nodes res)) = set (map node_id ns) \<and>
     length (nodes res) = card (set (map node_id ns)) \<and>
     (distinct (map node_id ns) \<longrightarrow> length (nodes res) = length ns) \<and>
     (\<forall>rn\<in>set (nodes res). \<exists>n\<in>set ns. \<exists>rank px py c.
        computeRanks ns (node_id n) = Some rank \<and>
        rn = render n (Some rank) ori (lane rn) \<and> 0 \<le> lane rn \<and>
        x rn = Num px \<and> y rn = Num py \<and> color rn = Some c)"
proof -
  obtain res where r: "calculateLayout w h ns ori = Some res"
    using calculateLayout_total by blast
  from calculateLayout_SomeD[OF r] obtain nm a where
    p: "layoutPass (computeRanks ns) ori (layoutNodes ns) ([], Map.empty) = Some (nm, a)" and
    n: "nodes res = map_values nm"
    by blast
  note E = layoutPass_entries[OF p]
  have key: "\<forall>e\<in>set nm. node_id (snd e) = fst e"
  proof
    fix e assume "e \<in> set nm"
    then have "fromNodes (computeRanks ns) ori (set (layoutNodes ns)) e" using E by auto
    then obtain m where m: "fst e = node_id m"
      "snd e = render m (computeRanks ns (node_id m)) ori (lane (snd e))"
      by (auto simp: fromNodes_def)
    have "node_id (snd e) = node_id m" by (subst m(2)) simp
    then show "node_id (snd e) = fst e" using m(1) by simp
  qed
  then have ids: "map node_id (nodes res) = map fst nm"
    by (simp add: n map_values_def)
  have d: "distinct (map node_id (nodes res))" using E ids by simp
  have s: "set (map node_id (nodes res)) = set (map node_id ns)" using E ids by simp
  have "length (nodes res) = length (map node_id (nodes res))" by simp
  also have "\<dots> = card (set (map node_id (nodes res)))" using d by (simp only: distinct_card)
  finally have c: "length (nodes res) = card (set (map node_id ns))" using s by simp
  have c': "distinct (map node_id ns) \<longrightarrow> length (nodes res) = length ns"
    using c distinct_card[of "map node_id ns"] by auto
  have each: "\<forall>rn\<in>set (nodes res). \<exists>n\<in>set ns. \<exists>rank px py c.
        computeRanks ns (node_id n) = Some rank \<and>
        rn = render n (Some rank) ori (lane rn) \<and> 0 \<le> lane rn \<and>
        x rn = Num px \<and> y rn = Num py \<and> color rn = Some c"
  proof
    fix rn assume rn: "rn \<in> set (nodes res)"
    from rendered_from_input[OF r rn] obtain m where
      m: "m \<in> set ns" "rn = render m (computeRanks ns (node_id m)) ori (lane rn)"
      by blast
    from computeRanks_total[OF m(1)] obtain rank where
      rk: "computeRanks ns (node_id m) = Some rank" by blast
    have e: "rn = render m (Some rank) ori (lane rn)" using m(2) rk by simp
    have l: "0 \<le> lane rn" using calculateLayout_lanes[OF r rn] by simp
    obtain c where "nodeColor (lane rn) (status m) = Some c" using nodeColor_Some[OF l] by blast
    then have col: "color rn = Some c" by (subst e) simp
    have "\<exists>px. x rn = Num px" by (subst e) (simp add: render_coords)
    moreover have "\<exists>py. y rn = Num py" by (subst e) (simp add: render_coords)
    ultimately show "\<exists>n\<in>set ns. \<exists>rank px py c.
        computeRanks ns (node_id n) = Some rank \<and>
        rn = render n (Some rank) ori (lane rn) \<and> 0 \<le> lane rn \<and>
        x rn = Num px \<and> y rn = Num py \<and> color rn = Some c"
      using m(1) rk e l col by blast
  qed
  show ?thesis using r d s c c' each by blast
qed

theorem rendered_per_distinct_id_witness:
  "\<exists>res. calculateLayout 800 600 twins Vertical = Some res \<and>
     distinct (map node_id (nodes res)) \<and>
     set (map node_id (nodes res)) = {''A''} \<and>
     length (nodes res) = 1 \<and>
     (\<forall>rn\<in>set (nodes res). \<exists>n\<in>set twins. \<exists>rank px py c.
        computeRanks twins (node_id n) = Some rank \<and>
        rn = render n (Some rank) Vertical (lane rn) \<and> 0 \<le> lane rn \<and>
        x rn = Num px \<and> y rn = Num py \<and> color rn = Some c)"
proof -
  have s: "set (map node_id twins) = {''A''}" by (simp add: twins_def mkNode_def)
  have c: "card {''A''} = 1" by simp
  show ?thesis
    using rendered_per_distinct_id[of 800 600 twins Vertical, unfolded s c] by blast
qed

section \<open>The status does not influence the layout\<close>

text \<open>
  C7. If two input lists are element-wise identical except for the status fields, then the
  two runs compute the same rank map, both return, and their rendered nodes agree one by
  one in everything but status and colour: same id, same lane, same x and same y. The
  canvas width and height agree as well.
\<close>

theorem status_does_not_affect_layout:
  assumes "map eraseStatus ns = map eraseStatus ns'"
  shows "computeRanks ns = computeRanks ns' \<and>
         (\<exists>res res'. calculateLayout w h ns ori = Some res \<and>
            calculateLayout w h ns' ori = Some res' \<and>
            map eraseStyle (nodes res) = map eraseStyle (nodes res') \<and>
            width res = width res' \<and> height res = height res')"
proof -
  have R: "computeRanks ns = computeRanks ns'"
    using computeRanks_erase[of ns] computeRanks_erase[of ns'] assms by simp
  have L: "map eraseStatus (layoutNodes ns) = map eraseStatus (layoutNodes ns')"
    using layoutNodes_erase[of ns] layoutNodes_erase[of ns'] assms by simp
  obtain nm a where p: "layoutPass (computeRanks ns) ori (layoutNodes ns) ([], Map.empty) = Some (nm, a)"
    using layoutPass_total by blast
  obtain nm' a' where p': "layoutPass (computeRanks ns') ori (layoutNodes ns') ([], Map.empty) = Some (nm', a')"
    using layoutPass_total by blast
  have "map_option eraseState (layoutPass (computeRanks ns) ori (layoutNodes ns) ([], Map.empty)) =
        map_option eraseState (layoutPass (computeRanks ns) ori (layoutNodes ns') ([], Map.empty))"
    by (rule layoutPass_rel[OF L]) simp
  then have "eraseMap nm = eraseMap nm'" using p p' R by (simp add: eraseState_def)
  then have N: "map eraseStyle (map_values nm) = map eraseStyle (map_values nm')"
    by (simp add: map_values_eraseMap[symmetric])
  have X: "map x (map_values nm) = map x (map_values nm')"
    using arg_cong[OF N, of "map x"] by (simp only: coords_eraseStyle)
  have Y: "map y (map_values nm) = map y (map_values nm')"
    using arg_cong[OF N, of "map y"] by (simp only: coords_eraseStyle)
  have c: "calculateLayout w h ns ori =
      Some \<lparr>nodes = map_values nm, edges = renderEdges nm,
        width = js_max (js_add (js_add (Math_max (map x (map_values nm)))
                  (if ori = Vertical then NODE_WIDTH else H_NODE_WIDTH)) 100) (Num w),
        height = js_max (js_add (js_add (Math_max (map y (map_values nm)))
                  (if ori = Vertical then NODE_HEIGHT else H_NODE_HEIGHT)) 100) (Num h)\<rparr>"
    using p by (simp add: calculateLayout_def Let_def)
  have c': "calculateLayout w h ns' ori =
      Some \<lparr>nodes = map_values nm', edges = renderEdges nm',
        width = js_max (js_add (js_add (Math_max (map x (map_values nm')))
                  (if ori = Vertical then NODE_WIDTH else H_NODE_WIDTH)) 100) (Num w),
        height = js_max (js_add (js_add (Math_max (map y (map_values nm')))
                  (if ori = Vertical then NODE_HEIGHT else H_NODE_HEIGHT)) 100) (Num h)\<rparr>"
    using p' by (simp add: calculateLayout_def Let_def)
  show ?thesis using R c c' N X Y by simp
qed

theorem status_does_not_affect_layout_witness:
  "map eraseStatus diamond = map eraseStatus diamondStyled \<and>
   computeRanks diamond = computeRanks diamondStyled \<and>
   (\<exists>res res'. calculateLayout 800 600 diamond Horizontal = Some res \<and>
      calculateLayout 800 600 diamondStyled Horizontal = Some res' \<and>
      map eraseStyle (nodes res) = map eraseStyle (nodes res') \<and>
      width res = width res' \<and> height res = height res')"
proof -
  have h: "map eraseStatus diamond = map eraseStatus diamondStyled"
    by (simp add: diamond_def diamondStyled_def mkNode_def eraseStatus_def)
  show ?thesis
    using h status_does_not_affect_layout[OF h, of 800 600 Horizontal] by blast
qed

section \<open>Coordinates\<close>

text \<open>
  C8. Every rendered node of a returned layout has a rank in the final rank map, and its
  coordinates are: under \<open>Vertical\<close>, \<open>x = lane * (NODE_WIDTH + GAP_X) + 50\<close> and
  \<open>y = rank * (NODE_HEIGHT + GAP_Y) + 50\<close>; under \<open>Horizontal\<close>,
  \<open>x = rank * H_GAP_X + 50\<close> and \<open>y = lane * (H_NODE_HEIGHT + H_GAP_Y) + 50\<close>.
\<close>

theorem coordinates_from_rank_and_lane:
  assumes "calculateLayout w h ns ori = Some res" and "rn \<in> set (nodes res)"
  shows "\<exists>rank. computeRanks ns (node_id rn) = Some rank \<and>
           (ori = Vertical \<longrightarrow>
              x rn = Num (lane rn * (NODE_WIDTH + GAP_X) + 50) \<and>
              y rn = Num (rank * (NODE_HEIGHT + GAP_Y) + 50)) \<and>
           (ori = Horizontal \<longrightarrow>
              x rn = Num (rank * H_GAP_X + 50) \<and>
              y rn = Num (lane rn * (H_NODE_HEIGHT + H_GAP_Y) + 50))"
proof -
  from rendered_from_input[OF assms] obtain n where
    n: "n \<in> set ns" "node_id rn = node_id n"
       "rn = render n (computeRanks ns (node_id n)) ori (lane rn)"
    by blast
  from computeRanks_total[OF n(1)] obtain r where r: "computeRanks ns (node_id n) = Some r"
    by blast
  have "x rn = x (render n (Some r) ori (lane rn))" "y rn = y (render n (Some r) ori (lane rn))"
    using n(3) r by simp_all
  then show ?thesis using r n(2) by (simp add: render_coords)
qed

theorem coordinates_from_rank_and_lane_witness:
  "(\<exists>res rn. calculateLayout 800 600 diamond Vertical = Some res \<and> rn \<in> set (nodes res) \<and>
      node_id rn = ''D'' \<and> lane rn = 0 \<and> computeRanks diamond ''D'' = Some 2 \<and>
      x rn = Num (0 * (NODE_WIDTH + GAP_X) + 50) \<and>
      y rn = Num (2 * (NODE_HEIGHT + GAP_Y) + 50)) \<and>
   (\<exists>res rn. calculateLayout 800 600 twins Horizontal = Some res \<and> rn \<in> set (nodes res) \<and>
      node_id rn = ''A'' \<and> lane rn = 1 \<and> computeRanks twins ''A'' = Some 0 \<and>
      x rn = Num (0 * H_GAP_X + 50) \<and>
      y rn = Num (1 * (H_NODE_HEIGHT + H_GAP_Y) + 50))"
proof
  let ?D = "rnode ''D'' 3 [''B'', ''C''] 50 450 0 ''#3b82f6''"
  have p: "layoutPass (computeRanks diamond) Vertical (layoutNodes diamond) ([], Map.empty) =
     Some ([(''A'', rnode ''A'' 0 [] 50 50 0 ''#3b82f6''),
            (''B'', rnode ''B'' 1 [''A''] 50 250 0 ''#3b82f6''),
            (''C'', rnode ''C'' 2 [''A''] 280 250 1 ''#10b981''),
            (''D'', ?D)],
           [0 \<mapsto> ''D'', 1 \<mapsto> ''C''])"
    unfolding layoutNodes_diamond by (rule layoutPass_diamond)
  obtain res where res: "calculateLayout 800 600 diamond Vertical = Some res" and
    ns: "nodes res = map_values
           [(''A'', rnode ''A'' 0 [] 50 50 0 ''#3b82f6''),
            (''B'', rnode ''B'' 1 [''A''] 50 250 0 ''#3b82f6''),
            (''C'', rnode ''C'' 2 [''A''] 280 250 1 ''#10b981''),
            (''D'', ?D)]"
    using calculateLayout_nodesI[OF p] by blast
  have m: "?D \<in> set (nodes res)" by (simp add: ns map_values_def)
  have i: "node_id ?D = ''D''" "lane ?D = 0" by (simp_all add: rnode_def)
  have r: "computeRanks diamond ''D'' = Some 2" by (simp add: computeRanks_diamond)
  from coordinates_from_rank_and_lane[OF res m]
  have "x ?D = Num (0 * (NODE_WIDTH + GAP_X) + 50) \<and> y ?D = Num (2 * (NODE_HEIGHT + GAP_Y) + 50)"
    unfolding i r by simp
  then show "\<exists>res rn. calculateLayout 800 600 diamond Vertical = Some res \<and> rn \<in> set (nodes res) \<and>
      node_id rn = ''D'' \<and> lane rn = 0 \<and> computeRanks diamond ''D'' = Some 2 \<and>
      x rn = Num (0 * (NODE_WIDTH + GAP_X) + 50) \<and>
      y rn = Num (2 * (NODE_HEIGHT + GAP_Y) + 50)"
    using res m i r by blast
next
  let ?A = "rnode ''A'' 1 [] 50 230 1 ''#10b981''"
  let ?res = "\<lparr>nodes = [?A], edges = [], width = Num 800, height = Num 600\<rparr>"
  have m: "?A \<in> set (nodes ?res)" by simp
  have i: "node_id ?A = ''A''" "lane ?A = 1" by (simp_all add: rnode_def)
  have r: "computeRanks twins ''A'' = Some 0" by (simp add: computeRanks_twins)
  from coordinates_from_rank_and_lane[OF calculateLayout_twins_horizontal m]
  have "x ?A = Num (0 * H_GAP_X + 50) \<and> y ?A = Num (1 * (H_NODE_HEIGHT + H_GAP_Y) + 50)"
    unfolding i r by simp
  then show "\<exists>res rn. calculateLayout 800 600 twins Horizontal = Some res \<and> rn \<in> set (nodes res) \<and>
      node_id rn = ''A'' \<and> lane rn = 1 \<and> computeRanks twins ''A'' = Some 0 \<and>
      x rn = Num (0 * H_GAP_X + 50) \<and>
      y rn = Num (1 * (H_NODE_HEIGHT + H_GAP_Y) + 50)"
    using calculateLayout_twins_horizontal m i r by blast
qed

section \<open>Empty input\<close>

text \<open>
  C9. On the empty node list, under every orientation, \<open>calculateLayout\<close> returns (it is
  not \<open>None\<close>) no nodes, no edges, and a canvas of exactly the viewport's width and height:
  both \<open>Math.max()\<close> calls yield \<open>-Infinity\<close>, which the viewport floor replaces.
\<close>

theorem calculateLayout_empty:
  "calculateLayout innerWidth innerHeight [] orientation =
     Some \<lparr>nodes = [], edges = [], width = Num innerWidth, height = Num innerHeight\<rparr>"
  by (simp add: calculateLayout_def layoutNodes_def sort_by_def map_values_def Math_max_def
      renderEdges_def)

section \<open>The claimed lanes form an initial segment\<close>

text \<open>
  C10. After any list \<open>pre\<close> of nodes has been processed from the empty maps, the pass has
  returned, the claimed lanes are exactly \<open>0, ..., k - 1\<close> for some \<open>k\<close> that is at most
  the number of processed nodes, every stored lane lies in that range, and the step for
  any next node returns and keeps every claimed lane claimed. Hence \<open>calculateLayout\<close>
  returns, and every lane in its result is at least 0 and below the number of input nodes.
\<close>

theorem lanes_stay_packed:
  "(\<exists>nodeMap laneAlloc k.
      layoutPass ranks ori pre ([], Map.empty) = Some (nodeMap, laneAlloc) \<and>
      0 \<le> k \<and> k \<le> int (length pre) \<and> dom laneAlloc = {0..<k} \<and>
      (\<forall>rn\<in>set (map_values nodeMap). 0 \<le> lane rn \<and> lane rn < k) \<and>
      (\<exists>nodeMap' laneAlloc'.
         layoutNode ranks ori (nodeMap, laneAlloc) node = Some (nodeMap', laneAlloc') \<and>
         dom laneAlloc \<subseteq> dom laneAlloc')) \<and>
   (\<exists>res. calculateLayout w h ns ori = Some res \<and>
      (\<forall>rn\<in>set (nodes res). 0 \<le> lane rn \<and> lane rn < int (length ns)))"
proof
  obtain nm a where p: "layoutPass ranks ori pre ([], Map.empty) = Some (nm, a)"
    using layoutPass_total by blast
  from layoutPass_init[OF p] obtain k where
    k: "packed a k" "k \<le> int (length pre)"
       "\<forall>rn\<in>set (map_values nm). 0 \<le> lane rn \<and> lane rn < k"
    by blast
  have "layoutNode ranks ori (nm, a) node =
          Some (map_set nm (node_id node)
                  (render node (ranks (node_id node)) ori (chosenLane nm a k node)),
                a(chosenLane nm a k node \<mapsto> node_id node))"
    by (rule layoutNode_packed[OF k(1)])
  moreover have "dom a \<subseteq> dom (a(chosenLane nm a k node \<mapsto> node_id node))" by auto
  ultimately have "\<exists>nodeMap' laneAlloc'.
         layoutNode ranks ori (nm, a) node = Some (nodeMap', laneAlloc') \<and>
         dom a \<subseteq> dom laneAlloc'"
    by blast
  then show "\<exists>nodeMap laneAlloc k.
      layoutPass ranks ori pre ([], Map.empty) = Some (nodeMap, laneAlloc) \<and>
      0 \<le> k \<and> k \<le> int (length pre) \<and> dom laneAlloc = {0..<k} \<and>
      (\<forall>rn\<in>set (map_values nodeMap). 0 \<le> lane rn \<and> lane rn < k) \<and>
      (\<exists>nodeMap' laneAlloc'.
         layoutNode ranks ori (nodeMap, laneAlloc) node = Some (nodeMap', laneAlloc') \<and>
         dom laneAlloc \<subseteq> dom laneAlloc')"
    using p k by (auto simp: packed_def)
next
  obtain res where r: "calculateLayout w h ns ori = Some res"
    using calculateLayout_total by blast
  show "\<exists>res. calculateLayout w h ns ori = Some res \<and>
      (\<forall>rn\<in>set (nodes res). 0 \<le> lane rn \<and> lane rn < int (length ns))"
    using r calculateLayout_lanes[OF r] by blast
qed

theorem lanes_stay_packed_witness:
  "(\<exists>nodeMap laneAlloc k.
      layoutPass (computeRanks diamond) Vertical diamond ([], Map.empty) = Some (nodeMap, laneAlloc) \<and>
      0 \<le> k \<and> k \<le> 4 \<and> dom laneAlloc = {0..<k} \<and>
      (\<forall>rn\<in>set (map_values nodeMap). 0 \<le> lane rn \<and> lane rn < k) \<and>
      (\<exists>nodeMap' laneAlloc'.
         layoutNode (computeRanks diamond) Vertical (nodeMap, laneAlloc)
           (mkNode ''E'' 4 Active [''C'']) = Some (nodeMap', laneAlloc') \<and>
         dom laneAlloc \<subseteq> dom laneAlloc')) \<and>
   (\<exists>res. calculateLayout 800 600 diamond Vertical = Some res \<and>
      (\<forall>rn\<in>set (nodes res). 0 \<le> lane rn \<and> lane rn < 4))"
proof -
  have l: "int (length diamond) = 4" by (simp add: diamond_def)
  show ?thesis
    by (rule lanes_stay_packed[of "computeRanks diamond" Vertical diamond
          "mkNode ''E'' 4 Active [''C'']" 800 600 diamond, unfolded l])
qed

end
